theory Spec2Isabelle
  imports Main "HOL-Library.Word" "HOL-Library.Char_ord" "HOL-Library.List_Lexorder"
begin

section \<open>The ordered intrusive index (intrusive\_tree.h)\<close>

subsection \<open>Nodes and pointers\<close>

text \<open>
  Every pair record of the container is embedded in two trees, once under each tag.
  A pointer is null, the sentinel of the tree with the given tag, or the address of a
  record. \<open>size_t\<close> is a 64-bit unsigned integer: \<open>n_node++\<close> and \<open>n_node--\<close> wrap.
\<close>

datatype tag = left_tag | right_tag

datatype ptr = nullptr | Sentinel tag | Rec nat

type_synonym size_t = "64 word"

text \<open>
  The embedding of a record in one tree: its left child, its address, its key and its
  right child. \<open>Null\<close> is the null child pointer. The nodes linked below a sentinel are
  kept as this tree value; the node a pointer \<open>Rec a\<close> refers to is the one with the
  address \<open>a\<close> in it. The parent pointers of the source are the same structure read
  upwards; only \<open>next\<close>, \<open>prev\<close> and \<open>unlink\<close> of intrusive\_node.h follow them.
  \<open>inorder\<close> lists the nodes from the leftmost to the rightmost.
\<close>

datatype 'k node = Null | Node "'k node" nat 'k "'k node"

fun inorder :: "'k node \<Rightarrow> (nat \<times> 'k) list" where
  "inorder Null = []"
| "inorder (Node l a k r) = inorder l @ (a, k) # inorder r"

definition addrs :: "'k node \<Rightarrow> nat list" where
  "addrs t = map fst (inorder t)"

text \<open>
  The tree object: the pointer to its sentinel, the two child slots of the sentinel node
  (\<open>sentinel->left\<close> is the root, \<open>sentinel->right\<close> is the slot that
  \<open>link_sentinel\<close> of the container points at the other tree's sentinel), the
  comparator and the node counter.
\<close>

record 'k intrusive_tree =
  sentinel :: ptr
  sentinel_left :: "'k node"
  sentinel_right :: ptr
  comp :: "'k \<Rightarrow> 'k \<Rightarrow> bool"
  n_node :: size_t

text \<open>
  The constructor, given a sentinel node that is not linked to anything yet: both its
  slots are null.
\<close>

definition tree_ctor :: "ptr \<Rightarrow> ('k \<Rightarrow> 'k \<Rightarrow> bool) \<Rightarrow> 'k intrusive_tree" where
  "tree_ctor s compare =
     \<lparr>sentinel = s, sentinel_left = Null, sentinel_right = nullptr, comp = compare, n_node = 0\<rparr>"

text \<open>
  Errors as values: the exception of \<open>at_left\<close> and \<open>at_right\<close>, a failing
  \<open>assert\<close>, and an operation the source leaves undefined (dereferencing or flipping a
  position that is not a linked record).
\<close>

datatype error = out_of_range | assertion_failed | undefined_behaviour

definition tree_empty :: "'k intrusive_tree \<Rightarrow> error + bool" where
  "tree_empty t =
     (if (sentinel_left t = Null) = (n_node t = 0) then Inr (sentinel_left t = Null)
      else Inl assertion_failed)"

text \<open>\<open>size()\<close> and \<open>end()\<close> of the tree.\<close>

definition tree_size :: "'k intrusive_tree \<Rightarrow> size_t" where
  "tree_size t = n_node t"

definition tree_end :: "'k intrusive_tree \<Rightarrow> ptr" where
  "tree_end t = sentinel t"

subsection \<open>The descent\<close>

text \<open>
  Two keys are equivalent under a comparator when neither is less than the other: the
  case in which the descent stops with \<open>THERE_IS\<close>.
\<close>

definition equivalent :: "('k \<Rightarrow> 'k \<Rightarrow> bool) \<Rightarrow> 'k \<Rightarrow> 'k \<Rightarrow> bool" where
  "equivalent cmp a b = (\<not> cmp a b \<and> \<not> cmp b a)"

datatype find_result = THERE_IS | ADD_RIGHT | ADD_LEFT

text \<open>
  The \<open>while (cur != nullptr)\<close> loop of the private \<open>find\<close>, started at a node. It
  only ever steps to a child that is not null, so the first equation (the loop condition
  failing, \<open>res\<close> still at its initial \<open>ADD_LEFT\<close>) is reached for a null start only.
\<close>

fun find_loop :: "('k \<Rightarrow> 'k \<Rightarrow> bool) \<Rightarrow> 'k node \<Rightarrow> 'k \<Rightarrow> ptr \<times> find_result" where
  "find_loop cmp Null data = (nullptr, ADD_LEFT)"
| "find_loop cmp (Node l a k r) data =
     (if cmp k data then
        (if r \<noteq> Null then find_loop cmp r data else (Rec a, ADD_RIGHT))
      else if cmp data k then
        (if l \<noteq> Null then find_loop cmp l data else (Rec a, ADD_LEFT))
      else (Rec a, THERE_IS))"

text \<open>
  The private \<open>find(data, res)\<close>, returning the node and \<open>res\<close>, and the public
  \<open>find(x)\<close>.
\<close>

definition find_res :: "'k intrusive_tree \<Rightarrow> 'k \<Rightarrow> ptr \<times> find_result" where
  "find_res t data =
     (if sentinel_left t = Null then (sentinel t, ADD_LEFT)
      else find_loop (comp t) (sentinel_left t) data)"

definition tree_find :: "'k intrusive_tree \<Rightarrow> 'k \<Rightarrow> ptr" where
  "tree_find t x =
     (let (cur, res) = find_res t x in if res = THERE_IS then cur else tree_end t)"

subsection \<open>In-order stepping and unlinking (intrusive\_node.h)\<close>

text \<open>
  Modelled from the spec: \<open>node::min_node\<close> of intrusive\_node.h, which is not among the
  sources. The spec: begin is the leftmost descendant reachable from the sentinel's child
  slot, or the sentinel itself if the index is empty. \<open>min_addr t p\<close> is the leftmost
  node of \<open>t\<close>, and \<open>p\<close> when \<open>t\<close> is null.
\<close>

fun min_addr :: "'k node \<Rightarrow> ptr \<Rightarrow> ptr" where
  "min_addr Null p = p"
| "min_addr (Node l a k r) p = min_addr l (Rec a)"

definition tree_begin :: "'k intrusive_tree \<Rightarrow> ptr" where
  "tree_begin t = min_addr (sentinel_left t) (sentinel t)"

text \<open>
  Modelled from the spec: \<open>node::next\<close> of intrusive\_node.h, which is not among the
  sources. The spec: the successor is the leftmost node of the right child's subtree if
  there is a right child, else the first ancestor reached from its left child; stepping
  forward from the maximum reaches end. \<open>next_node t a up\<close> looks for the node at address
  \<open>a\<close> below \<open>t\<close>, where \<open>up\<close> is the nearest ancestor of \<open>t\<close> that has \<open>t\<close> in its
  left subtree (the sentinel, if there is none); \<open>None\<close> when \<open>a\<close> is not below \<open>t\<close>.
\<close>

fun next_node :: "'k node \<Rightarrow> nat \<Rightarrow> ptr \<Rightarrow> ptr option" where
  "next_node Null a up = None"
| "next_node (Node l b k r) a up =
     (if a = b then Some (min_addr r up)
      else (case next_node l a (Rec b) of
              Some p \<Rightarrow> Some p
            | None \<Rightarrow> next_node r a up))"

text \<open>
  Modelled from the spec: \<open>cur->next()\<close> on a position of the tree \<open>t\<close>, with
  \<open>node::next\<close> as above. Stepping a position that is not a linked record (end, null, a
  stale address) is undefined in the source; the model returns the null pointer there.
\<close>

definition tree_next :: "'k intrusive_tree \<Rightarrow> ptr \<Rightarrow> ptr" where
  "tree_next t p =
     (case p of
        Rec a \<Rightarrow> (case next_node (sentinel_left t) a (sentinel t) of
                    Some q \<Rightarrow> q
                  | None \<Rightarrow> nullptr)
      | _ \<Rightarrow> nullptr)"

text \<open>
  Modelled from the spec: the part of \<open>node::unlink\<close> (intrusive\_node.h, not among the
  sources) that takes the successor out of the right subtree: the leftmost node below
  \<open>Node l a k r\<close>, and what is left of that subtree without it.
\<close>

fun take_min :: "'k node \<Rightarrow> nat \<Rightarrow> 'k \<Rightarrow> 'k node \<Rightarrow> (nat \<times> 'k) \<times> 'k node" where
  "take_min Null a k r = ((a, k), r)"
| "take_min (Node ll la lk lr) a k r =
     (let (m, l') = take_min ll la lk lr in (m, Node l' a k r))"

text \<open>
  Modelled from the spec: \<open>node::unlink\<close> of intrusive\_node.h, which is not among the
  sources. The spec: three-case unlink (leaf, one child, two children), standard BST
  deletion, splicing a successor into the removed slot as needed to preserve ordering.
  The node is looked up by its address.
\<close>

fun unlink_node :: "'k node \<Rightarrow> nat \<Rightarrow> 'k node" where
  "unlink_node Null a = Null"
| "unlink_node (Node l b k r) a =
     (if a = b then
        (if l = Null then r
         else (case r of
                 Null \<Rightarrow> l
               | Node rl rb rk rr \<Rightarrow>
                   (let ((m, mk), r') = take_min rl rb rk rr in Node l m mk r')))
      else Node (unlink_node l a) b k (unlink_node r a))"

text \<open>
  Modelled from the spec: \<open>cur->unlink()\<close> on a position of the tree \<open>t\<close>, with
  \<open>node::unlink\<close> as above. Only a record can be unlinked.
\<close>

definition unlink :: "'k intrusive_tree \<Rightarrow> ptr \<Rightarrow> 'k intrusive_tree" where
  "unlink t p =
     (case p of
        Rec a \<Rightarrow> t\<lparr>sentinel_left := unlink_node (sentinel_left t) a\<rparr>
      | _ \<Rightarrow> t)"

subsection \<open>The public operations\<close>

definition find_next :: "'k intrusive_tree \<Rightarrow> 'k \<Rightarrow> ptr" where
  "find_next t x =
     (let (cur, res) = find_res t x
      in if res = THERE_IS \<or> res = ADD_LEFT then cur else tree_next t cur)"

text \<open>
  The assignments \<open>cur->left = &data\<close> and \<open>cur->right = &data\<close>: \<open>cur\<close> is the
  sentinel of the tree or a node found by its address.
\<close>

fun link_left :: "'k node \<Rightarrow> nat \<Rightarrow> 'k node \<Rightarrow> 'k node" where
  "link_left Null b d = Null"
| "link_left (Node l a k r) b d =
     (if a = b then Node d a k r else Node (link_left l b d) a k (link_left r b d))"

fun link_right :: "'k node \<Rightarrow> nat \<Rightarrow> 'k node \<Rightarrow> 'k node" where
  "link_right Null b d = Null"
| "link_right (Node l a k r) b d =
     (if a = b then Node l a k d else Node (link_right l b d) a k (link_right r b d))"

definition set_left :: "ptr \<Rightarrow> nat \<Rightarrow> 'k \<Rightarrow> 'k intrusive_tree \<Rightarrow> 'k intrusive_tree" where
  "set_left cur a k t =
     (case cur of
        Rec b \<Rightarrow> t\<lparr>sentinel_left := link_left (sentinel_left t) b (Node Null a k Null)\<rparr>
      | _ \<Rightarrow> if cur = sentinel t then t\<lparr>sentinel_left := Node Null a k Null\<rparr> else t)"

definition set_right :: "ptr \<Rightarrow> nat \<Rightarrow> 'k \<Rightarrow> 'k intrusive_tree \<Rightarrow> 'k intrusive_tree" where
  "set_right cur a k t =
     (case cur of
        Rec b \<Rightarrow> t\<lparr>sentinel_left := link_right (sentinel_left t) b (Node Null a k Null)\<rparr>
      | _ \<Rightarrow> if cur = sentinel t then t\<lparr>sentinel_right := Rec a\<rparr> else t)"

text \<open>
  \<open>insert(T& data)\<close>: the node \<open>data\<close> is the embedding at address \<open>a\<close> with key \<open>k\<close>,
  not linked anywhere yet.
\<close>

definition tree_insert :: "'k intrusive_tree \<Rightarrow> nat \<Rightarrow> 'k \<Rightarrow> ptr \<times> 'k intrusive_tree" where
  "tree_insert t a k =
     (let (cur, res) = find_res t k
      in if res = THERE_IS then (tree_end t, t)
         else (let t' = t\<lparr>n_node := n_node t + 1\<rparr>
               in if res = ADD_LEFT then (Rec a, set_left cur a k t')
                  else (Rec a, set_right cur a k t')))"

text \<open>\<open>remove(iterator)\<close> and \<open>remove(T& data)\<close>.\<close>

definition tree_remove_it :: "'k intrusive_tree \<Rightarrow> ptr \<Rightarrow> ptr \<times> 'k intrusive_tree" where
  "tree_remove_it t it =
     (let it_next = tree_next t it;
          t' = unlink t it
      in (it_next, t'\<lparr>n_node := n_node t' - 1\<rparr>))"

definition tree_remove :: "'k intrusive_tree \<Rightarrow> 'k \<Rightarrow> ptr \<times> 'k intrusive_tree" where
  "tree_remove t data =
     (let (cur, res) = find_res t data
      in if res = THERE_IS then (tree_end t, t) else tree_remove_it t cur)"

text \<open>
  Modelled from the spec: \<open>node::swap\<close> of intrusive\_node.h, which is not among the
  sources, called as \<open>sentinel->swap(*other.sentinel)\<close>. The spec: an O(1) exchange of
  root references between two indexes' sentinels. \<open>tree_swap t other\<close> returns the two
  trees after the call.
\<close>

definition tree_swap ::
  "'k intrusive_tree \<Rightarrow> 'k intrusive_tree \<Rightarrow> 'k intrusive_tree \<times> 'k intrusive_tree" where
  "tree_swap t other =
     (t\<lparr>n_node := n_node other, comp := comp other, sentinel_left := sentinel_left other\<rparr>,
      other\<lparr>n_node := n_node t, comp := comp t, sentinel_left := sentinel_left t\<rparr>)"

subsection \<open>Traversal and dereferencing\<close>

text \<open>
  The positions that a loop \<open>for (it = begin(); it != end(); it++)\<close> visits: the linked
  nodes in order (\<open>begin()\<close> and \<open>++\<close> step through exactly these, see
  \<open>tree_begin_positions\<close> and \<open>tree_next_positions\<close> below).
\<close>

definition positions :: "'k intrusive_tree \<Rightarrow> ptr list" where
  "positions t = map Rec (addrs (sentinel_left t))"

text \<open>
  \<open>*it\<close> on a tree iterator, followed by \<open>.key\<close>: the key stored in the node at
  that address.
\<close>

definition deref :: "'k intrusive_tree \<Rightarrow> ptr \<Rightarrow> error + 'k" where
  "deref t it =
     (case it of
        Rec a \<Rightarrow> (case map_of (inorder (sentinel_left t)) a of
                    Some k \<Rightarrow> Inr k
                  | None \<Rightarrow> Inl undefined_behaviour)
      | _ \<Rightarrow> Inl undefined_behaviour)"

text \<open>
  Modelled from the spec: \<open>is_equals\<close> of the tree, which is not among the sources. The
  spec: values are only compared by the two-sided test, neither \<open>a < b\<close> nor \<open>b < a\<close>.
\<close>

definition is_equals :: "('k \<Rightarrow> 'k \<Rightarrow> bool) \<Rightarrow> 'k \<Rightarrow> 'k \<Rightarrow> bool" where
  "is_equals cmp a b = equivalent cmp a b"

section \<open>The dual-index container (bimap.h)\<close>

record ('l, 'r) bimap =
  left_tree :: "'l intrusive_tree"
  right_tree :: "'r intrusive_tree"
  bimap_n_node :: size_t

type_synonym left_iterator = ptr
type_synonym right_iterator = ptr

text \<open>
  Modelled from the spec: \<open>is_end\<close> of the tree iterator, which is not among the sources:
  the position is the end position of its tree.
\<close>

definition is_end :: "'k intrusive_tree \<Rightarrow> ptr \<Rightarrow> bool" where
  "is_end t it = (it = tree_end t)"

text \<open>
  \<open>base_iterator::flip\<close>, for an iterator over the tree \<open>t\<close>: at the end position
  the result is the \<open>right\<close> slot of the sentinel, otherwise it is the same record
  under the other tag.
\<close>

definition flip :: "'k intrusive_tree \<Rightarrow> ptr \<Rightarrow> ptr" where
  "flip t it = (if is_end t it then sentinel_right t else it)"

definition flip_left :: "('l, 'r) bimap \<Rightarrow> left_iterator \<Rightarrow> right_iterator" where
  "flip_left B it = flip (left_tree B) it"

definition flip_right :: "('l, 'r) bimap \<Rightarrow> right_iterator \<Rightarrow> left_iterator" where
  "flip_right B it = flip (right_tree B) it"

text \<open>
  \<open>link_sentinel\<close>: the \<open>right\<close> slot of each sentinel is pointed at the sentinel of
  the other tree.
\<close>

definition link_sentinel :: "('l, 'r) bimap \<Rightarrow> ('l, 'r) bimap" where
  "link_sentinel B =
     (let B1 = B\<lparr>right_tree := (right_tree B)\<lparr>sentinel_right := sentinel (left_tree B)\<rparr>\<rparr>
      in B1\<lparr>left_tree := (left_tree B1)\<lparr>sentinel_right := sentinel (right_tree B1)\<rparr>\<rparr>)"

text \<open>\<open>swap\<close>: the two containers after the call.\<close>

definition bimap_swap ::
  "('l, 'r) bimap \<Rightarrow> ('l, 'r) bimap \<Rightarrow> ('l, 'r) bimap \<times> ('l, 'r) bimap" where
  "bimap_swap this other =
     (let (lt, olt) = tree_swap (left_tree this) (left_tree other);
          (rt, ort) = tree_swap (right_tree this) (right_tree other)
      in (link_sentinel
            \<lparr>left_tree = lt, right_tree = rt, bimap_n_node = bimap_n_node other\<rparr>,
          link_sentinel
            \<lparr>left_tree = olt, right_tree = ort, bimap_n_node = bimap_n_node this\<rparr>))"

text \<open>\<open>begin_left()\<close>, \<open>end_left()\<close>, \<open>begin_right()\<close>, \<open>end_right()\<close>.\<close>

definition begin_left :: "('l, 'r) bimap \<Rightarrow> left_iterator" where
  "begin_left B = tree_begin (left_tree B)"

definition end_left :: "('l, 'r) bimap \<Rightarrow> left_iterator" where
  "end_left B = tree_end (left_tree B)"

definition begin_right :: "('l, 'r) bimap \<Rightarrow> right_iterator" where
  "begin_right B = tree_begin (right_tree B)"

definition end_right :: "('l, 'r) bimap \<Rightarrow> right_iterator" where
  "end_right B = tree_end (right_tree B)"

text \<open>
  The constructor of an empty container. Each tree owns its sentinel; the sentinel of the
  left tree of a container is \<open>Sentinel left_tag\<close>, that of its right tree
  \<open>Sentinel right_tag\<close>.
\<close>

definition bimap_ctor :: "('l \<Rightarrow> 'l \<Rightarrow> bool) \<Rightarrow> ('r \<Rightarrow> 'r \<Rightarrow> bool) \<Rightarrow> ('l, 'r) bimap" where
  "bimap_ctor compare_left compare_right =
     link_sentinel
       \<lparr>left_tree = tree_ctor (Sentinel left_tag) compare_left,
        right_tree = tree_ctor (Sentinel right_tag) compare_right,
        bimap_n_node = 0\<rparr>"

text \<open>
  The address that \<open>new node_t\<close> returns: one at which no record of the container
  lies. The model takes the one above the largest address in use.
\<close>

definition new_addr :: "('l, 'r) bimap \<Rightarrow> nat" where
  "new_addr B =
     Suc (foldr max (addrs (sentinel_left (left_tree B)) @ addrs (sentinel_left (right_tree B))) 0)"

text \<open>
  \<open>find_left\<close>, \<open>find_right\<close>, the private \<open>add\<close> and \<open>insert\<close>, whose four
  overloads all forward to \<open>add\<close>.
\<close>

definition find_left :: "('l, 'r) bimap \<Rightarrow> 'l \<Rightarrow> left_iterator" where
  "find_left B l = tree_find (left_tree B) l"

definition find_right :: "('l, 'r) bimap \<Rightarrow> 'r \<Rightarrow> right_iterator" where
  "find_right B r = tree_find (right_tree B) r"

definition add :: "('l, 'r) bimap \<Rightarrow> 'l \<Rightarrow> 'r \<Rightarrow> left_iterator \<times> ('l, 'r) bimap" where
  "add B l r =
     (if tree_find (left_tree B) l = tree_end (left_tree B) \<and>
         tree_find (right_tree B) r = tree_end (right_tree B)
      then (let new_node = new_addr B;
                (iter_left_tree, lt) = tree_insert (left_tree B) new_node l;
                (iter_right_tree, rt) = tree_insert (right_tree B) new_node r
            in (iter_left_tree,
                B\<lparr>left_tree := lt, right_tree := rt, bimap_n_node := bimap_n_node B + 1\<rparr>))
      else (end_left B, B))"

definition bimap_insert :: "('l, 'r) bimap \<Rightarrow> 'l \<Rightarrow> 'r \<Rightarrow> left_iterator \<times> ('l, 'r) bimap" where
  "bimap_insert B l r = add B l r"

text \<open>
  Modelled from the spec: \<open>delete pointer\<close> runs the destructor of the record, which
  is in bimap\_details.h and intrusive\_node.h, not among the sources. The spec: erase unlinks
  the record from both indexes and deallocates it. The node counters of the two trees are
  members of the trees, out of reach of a node's destructor.
\<close>

definition delete_node :: "('l, 'r) bimap \<Rightarrow> ptr \<Rightarrow> ('l, 'r) bimap" where
  "delete_node B p = B\<lparr>left_tree := unlink (left_tree B) p, right_tree := unlink (right_tree B) p\<rparr>"

text \<open>
  \<open>erase_left(left_iterator)\<close> and \<open>erase_left(left_t const&)\<close>, then the same on the
  right.
\<close>

definition erase_left_it :: "('l, 'r) bimap \<Rightarrow> left_iterator \<Rightarrow> left_iterator \<times> ('l, 'r) bimap" where
  "erase_left_it B it =
     (let pointer = it;
          it' = tree_next (left_tree B) it;
          B' = B\<lparr>bimap_n_node := bimap_n_node B - 1\<rparr>
      in (it', delete_node B' pointer))"

definition erase_left :: "('l, 'r) bimap \<Rightarrow> 'l \<Rightarrow> bool \<times> ('l, 'r) bimap" where
  "erase_left B l =
     (let l_iter = find_left B l
      in if l_iter \<noteq> end_left B then (True, snd (erase_left_it B l_iter)) else (False, B))"

definition erase_right_it :: "('l, 'r) bimap \<Rightarrow> right_iterator \<Rightarrow> right_iterator \<times> ('l, 'r) bimap" where
  "erase_right_it B it =
     (let pointer = it;
          it' = tree_next (right_tree B) it;
          B' = B\<lparr>bimap_n_node := bimap_n_node B - 1\<rparr>
      in (it', delete_node B' pointer))"

definition erase_right :: "('l, 'r) bimap \<Rightarrow> 'r \<Rightarrow> bool \<times> ('l, 'r) bimap" where
  "erase_right B r =
     (let r_iter = find_right B r
      in if r_iter \<noteq> end_right B then (True, snd (erase_right_it B r_iter)) else (False, B))"

text \<open>\<open>at_left\<close> and \<open>at_right\<close>; \<open>throw std::out_of_range\<close> is \<open>Inl out_of_range\<close>.\<close>

definition at_left :: "('l, 'r) bimap \<Rightarrow> 'l \<Rightarrow> error + 'r" where
  "at_left B k =
     (let iter = find_left B k
      in if iter = end_left B then Inl out_of_range
         else deref (right_tree B) (flip_left B iter))"

definition at_right :: "('l, 'r) bimap \<Rightarrow> 'r \<Rightarrow> error + 'l" where
  "at_right B k =
     (let iter = find_right B k
      in if iter = end_right B then Inl out_of_range
         else deref (left_tree B) (flip_right B iter))"

text \<open>
  \<open>at_left_or_default\<close> and \<open>at_right_or_default\<close>; the argument \<open>dflt\<close> is the
  default-constructed value \<open>right_t()\<close>, respectively \<open>left_t()\<close>.
\<close>

definition at_left_or_default ::
  "('l, 'r) bimap \<Rightarrow> 'l \<Rightarrow> 'r \<Rightarrow> (error + 'r) \<times> ('l, 'r) bimap" where
  "at_left_or_default B k dflt =
     (let l_iter = find_left B k
      in if l_iter = end_left B then
           (let r_iter = find_right B dflt;
                B1 = (if r_iter \<noteq> end_right B then snd (erase_right_it B r_iter) else B);
                (it, B2) = bimap_insert B1 k dflt
            in (deref (right_tree B2) (flip_left B2 it), B2))
         else (deref (right_tree B) (flip_left B l_iter), B))"

definition at_right_or_default ::
  "('l, 'r) bimap \<Rightarrow> 'r \<Rightarrow> 'l \<Rightarrow> (error + 'l) \<times> ('l, 'r) bimap" where
  "at_right_or_default B k dflt =
     (let r_iter = find_right B k
      in if r_iter = end_right B then
           (let l_iter = find_left B dflt;
                B1 = (if l_iter \<noteq> end_left B then snd (erase_left_it B l_iter) else B);
                (it, B2) = bimap_insert B1 dflt k
            in (deref (left_tree B2) it, B2))
         else (deref (left_tree B) (flip_right B r_iter), B))"

definition bimap_size :: "('l, 'r) bimap \<Rightarrow> size_t" where
  "bimap_size B = bimap_n_node B"

text \<open>\<open>empty()\<close>, with its two assertions and the one of the tree's \<open>empty()\<close>.\<close>

definition bimap_empty :: "('l, 'r) bimap \<Rightarrow> error + bool" where
  "bimap_empty B =
     (case tree_empty (left_tree B) of
        Inl e \<Rightarrow> Inl e
      | Inr le \<Rightarrow>
          (case tree_empty (right_tree B) of
             Inl e \<Rightarrow> Inl e
           | Inr re \<Rightarrow>
               if le \<noteq> re then Inl assertion_failed
               else if le \<noteq> (bimap_n_node B = 0) then Inl assertion_failed
               else Inr (bimap_n_node B = 0)))"

text \<open>\<open>eq_left\<close> and \<open>eq_right\<close>, with the comparators of the container.\<close>

definition eq_left :: "('l, 'r) bimap \<Rightarrow> 'l \<Rightarrow> 'l \<Rightarrow> bool" where
  "eq_left B a b = is_equals (comp (left_tree B)) a b"

definition eq_right :: "('l, 'r) bimap \<Rightarrow> 'r \<Rightarrow> 'r \<Rightarrow> bool" where
  "eq_right B a b = is_equals (comp (right_tree B)) a b"

text \<open>
  The loop of \<open>operator==\<close>, over the positions the two iterators still have to visit;
  it ends as soon as one of them is at its end.
\<close>

fun eq_loop :: "('l, 'r) bimap \<Rightarrow> ('l, 'r) bimap \<Rightarrow> ptr list \<Rightarrow> ptr list \<Rightarrow> error + bool" where
  "eq_loop a b (it_a # as) (it_b # bs) =
     (case deref (left_tree a) it_a of
        Inl e \<Rightarrow> Inl e
      | Inr la \<Rightarrow>
     (case deref (left_tree b) it_b of
        Inl e \<Rightarrow> Inl e
      | Inr lb \<Rightarrow>
          if \<not> eq_left a la lb then Inr False
          else
     (case deref (right_tree a) (flip_left a it_a) of
        Inl e \<Rightarrow> Inl e
      | Inr ra \<Rightarrow>
     (case deref (right_tree b) (flip_left b it_b) of
        Inl e \<Rightarrow> Inl e
      | Inr rb \<Rightarrow>
          if \<not> eq_right a ra rb then Inr False
          else eq_loop a b as bs))))"
| "eq_loop a b as bs = Inr True"

definition bimap_eq :: "('l, 'r) bimap \<Rightarrow> ('l, 'r) bimap \<Rightarrow> error + bool" where
  "bimap_eq a b =
     (if bimap_size a \<noteq> bimap_size b then Inr False
      else eq_loop a b (positions (left_tree a)) (positions (left_tree b)))"

text \<open>
  The copy constructor: the loop over the positions of \<open>other\<close>, inserting into
  \<open>this\<close>.
\<close>

fun copy_loop :: "('l, 'r) bimap \<Rightarrow> ptr list \<Rightarrow> ('l, 'r) bimap \<Rightarrow> error + ('l, 'r) bimap" where
  "copy_loop other [] this = Inr this"
| "copy_loop other (it # its) this =
     (case deref (left_tree other) it of
        Inl e \<Rightarrow> Inl e
      | Inr l \<Rightarrow>
          (case deref (right_tree other) (flip_left other it) of
             Inl e \<Rightarrow> Inl e
           | Inr r \<Rightarrow> copy_loop other its (snd (bimap_insert this l r))))"

definition bimap_copy_ctor :: "('l, 'r) bimap \<Rightarrow> error + ('l, 'r) bimap" where
  "bimap_copy_ctor other =
     copy_loop other (positions (left_tree other))
       (link_sentinel
          \<lparr>left_tree = tree_ctor (Sentinel left_tag) (comp (left_tree other)),
           right_tree = tree_ctor (Sentinel right_tag) (comp (right_tree other)),
           bimap_n_node = 0\<rparr>)"

text \<open>
  The move constructor: the new container and what is left of \<open>other\<close>.
\<close>

definition bimap_move_ctor :: "('l, 'r) bimap \<Rightarrow> ('l, 'r) bimap \<times> ('l, 'r) bimap" where
  "bimap_move_ctor other =
     (let (lt, olt) = tree_swap (tree_ctor (Sentinel left_tag) (comp (left_tree other)))
                                (left_tree other);
          (rt, ort) = tree_swap (tree_ctor (Sentinel right_tag) (comp (right_tree other)))
                                (right_tree other)
      in (\<lparr>left_tree = lt, right_tree = rt, bimap_n_node = bimap_n_node other\<rparr>,
          other\<lparr>left_tree := olt, right_tree := ort\<rparr>))"

section \<open>Well-formed indexes and containers\<close>

text \<open>
  What the interface asks of a comparator: a strict order in which incomparability is
  transitive (every strict total order is one).
\<close>

definition strict_weak :: "('k \<Rightarrow> 'k \<Rightarrow> bool) \<Rightarrow> bool" where
  "strict_weak cmp \<longleftrightarrow>
     (\<forall>x. \<not> cmp x x) \<and>
     (\<forall>x y z. cmp x y \<longrightarrow> cmp y z \<longrightarrow> cmp x z) \<and>
     (\<forall>x y z. cmp x y \<longrightarrow> cmp x z \<or> cmp z y)"

definition bst :: "('k \<Rightarrow> 'k \<Rightarrow> bool) \<Rightarrow> 'k node \<Rightarrow> bool" where
  "bst cmp t = sorted_wrt (\<lambda>x y. cmp (snd x) (snd y)) (inorder t)"

text \<open>
  A well-formed index: the keys increase strictly along the in-order sequence, no address
  is linked twice, and the end position is a sentinel.
\<close>

definition tree_ok :: "'k intrusive_tree \<Rightarrow> bool" where
  "tree_ok t \<longleftrightarrow>
     strict_weak (comp t) \<and> bst (comp t) (sentinel_left t) \<and>
     distinct (addrs (sentinel_left t)) \<and> (\<exists>tg. sentinel t = Sentinel tg)"

text \<open>Some node of the index compares equivalent to \<open>x\<close>.\<close>

definition has_key :: "'k intrusive_tree \<Rightarrow> 'k \<Rightarrow> bool" where
  "has_key t x = (\<exists>e\<in>set (inorder (sentinel_left t)). equivalent (comp t) (snd e) x)"

text \<open>
  The in-order sequence after a node \<open>e\<close> went in below the last node whose key is
  less than its key.
\<close>

fun ins_by :: "('k \<Rightarrow> 'k \<Rightarrow> bool) \<Rightarrow> nat \<times> 'k \<Rightarrow> (nat \<times> 'k) list \<Rightarrow> (nat \<times> 'k) list" where
  "ins_by cmp e [] = [e]"
| "ins_by cmp e (y # ys) = (if cmp (snd y) (snd e) then y # ins_by cmp e ys else e # y # ys)"

text \<open>
  The position of the first node of an in-order sequence whose key is not less than
  \<open>x\<close>, and \<open>up\<close> when there is none.
\<close>

definition first_not_less :: "('k \<Rightarrow> 'k \<Rightarrow> bool) \<Rightarrow> 'k \<Rightarrow> (nat \<times> 'k) list \<Rightarrow> ptr \<Rightarrow> ptr" where
  "first_not_less cmp x xs up =
     (case dropWhile (\<lambda>e. cmp (snd e) x) xs of [] \<Rightarrow> up | e # _ \<Rightarrow> Rec (fst e))"

text \<open>
  The lower bound in the spec's words: the position of the least element that is not less
  than \<open>x\<close>, and end when every element is less than \<open>x\<close>.
\<close>

definition is_lower_bound :: "'k intrusive_tree \<Rightarrow> 'k \<Rightarrow> ptr \<Rightarrow> bool" where
  "is_lower_bound t x p =
     (if \<forall>e\<in>set (inorder (sentinel_left t)). comp t (snd e) x then p = tree_end t
      else \<exists>e\<in>set (inorder (sentinel_left t)).
             p = Rec (fst e) \<and> \<not> comp t (snd e) x \<and>
             (\<forall>e'\<in>set (inorder (sentinel_left t)).
                \<not> comp t (snd e') x \<longrightarrow> \<not> comp t (snd e') (snd e)))"

text \<open>
  A well-formed container: both indexes are well formed, they link the same records, and
  the pair counter is the number of records.
\<close>

definition bimap_ok :: "('l, 'r) bimap \<Rightarrow> bool" where
  "bimap_ok B \<longleftrightarrow>
     tree_ok (left_tree B) \<and> tree_ok (right_tree B) \<and>
     set (addrs (sentinel_left (left_tree B))) = set (addrs (sentinel_left (right_tree B))) \<and>
     bimap_n_node B = of_nat (length (addrs (sentinel_left (left_tree B))))"

text \<open>The pair record at an address, and the pairs of the container in left order.\<close>

definition pair_at :: "('l, 'r) bimap \<Rightarrow> nat \<Rightarrow> ('l \<times> 'r) option" where
  "pair_at B a =
     (case map_of (inorder (sentinel_left (left_tree B))) a of
        None \<Rightarrow> None
      | Some l \<Rightarrow>
          (case map_of (inorder (sentinel_left (right_tree B))) a of
             None \<Rightarrow> None
           | Some r \<Rightarrow> Some (l, r)))"

definition pairs :: "('l, 'r) bimap \<Rightarrow> ('l \<times> 'r) list" where
  "pairs B = List.map_filter (pair_at B) (addrs (sentinel_left (left_tree B)))"

text \<open>
  The sentinels of a container are cross-linked: each is the sentinel of its tree, and
  its \<open>right\<close> slot points at the sentinel of the other tree.
\<close>

definition sentinels_linked :: "('l, 'r) bimap \<Rightarrow> bool" where
  "sentinels_linked B \<longleftrightarrow>
     sentinel (left_tree B) = Sentinel left_tag \<and> sentinel (right_tree B) = Sentinel right_tag \<and>
     sentinel_right (left_tree B) = sentinel (right_tree B) \<and>
     sentinel_right (right_tree B) = sentinel (left_tree B)"

section \<open>Example inputs\<close>

text \<open>An index over \<open>int\<close> keys: the records 1, 2, 3 with the keys 20, 10, 30.\<close>

definition example_tree :: "int intrusive_tree" where
  "example_tree =
     snd (tree_insert (snd (tree_insert (snd (tree_insert
       (tree_ctor (Sentinel left_tag) (<)) 1 20)) 2 10)) 3 30)"

text \<open>
  A \<open>bimap<int, std::string>\<close> with the default comparators (\<open>std::less\<close>, which on
  strings is the lexicographic order of the bytes) after
  \<open>insert(1, "a")\<close>, \<open>insert(2, "b")\<close>, \<open>insert(3, "c")\<close>.
\<close>

definition empty_bimap :: "(int, string) bimap" where
  "empty_bimap = bimap_ctor (<) (<)"

definition example_bimap :: "(int, string) bimap" where
  "example_bimap =
     snd (bimap_insert (snd (bimap_insert (snd (bimap_insert empty_bimap 1 ''a'')) 2 ''b''))
       3 ''c'')"


section \<open>Properties of the index\<close>

subsection \<open>Comparators\<close>

lemma strict_weak_irrefl: "strict_weak cmp \<Longrightarrow> \<not> cmp x x"
  by (simp add: strict_weak_def)

lemma strict_weak_trans: "strict_weak cmp \<Longrightarrow> cmp x y \<Longrightarrow> cmp y z \<Longrightarrow> cmp x z"
  unfolding strict_weak_def by blast

lemma strict_weak_asym: "strict_weak cmp \<Longrightarrow> cmp x y \<Longrightarrow> \<not> cmp y x"
  unfolding strict_weak_def by blast

lemma strict_weak_cut: "strict_weak cmp \<Longrightarrow> cmp x y \<Longrightarrow> cmp x z \<or> cmp z y"
  unfolding strict_weak_def by blast

lemma strict_weak_less: "strict_weak ((<) :: 'a::linorder \<Rightarrow> 'a \<Rightarrow> bool)"
  unfolding strict_weak_def by auto

lemma equivalent_refl: "strict_weak cmp \<Longrightarrow> equivalent cmp x x"
  by (simp add: equivalent_def strict_weak_irrefl)

lemma bst_Null: "bst cmp Null"
  by (simp add: bst_def)

lemma bst_Node:
  "strict_weak cmp \<Longrightarrow> bst cmp (Node l a k r) \<longleftrightarrow>
     bst cmp l \<and> bst cmp r \<and> (\<forall>x\<in>set (inorder l). cmp (snd x) k) \<and>
     (\<forall>y\<in>set (inorder r). cmp k (snd y))"
  unfolding bst_def
  by (auto simp: sorted_wrt_append dest: strict_weak_trans)

lemma addrs_Node: "addrs (Node l a k r) = addrs l @ a # addrs r"
  by (simp add: addrs_def)

lemma addrs_Null: "addrs Null = []"
  by (simp add: addrs_def)

lemma inorder_Nil_iff: "inorder t = [] \<longleftrightarrow> t = Null"
  by (cases t) auto

lemma addrs_Nil_iff: "addrs t = [] \<longleftrightarrow> t = Null"
  by (simp add: addrs_def inorder_Nil_iff)

lemma in_inorder_addrs: "(a, k) \<in> set (inorder t) \<Longrightarrow> a \<in> set (addrs t)"
  by (force simp: addrs_def)

subsection \<open>The descent\<close>

lemma find_loop_Rec:
  "t \<noteq> Null \<Longrightarrow> \<exists>a. fst (find_loop cmp t x) = Rec a \<and> a \<in> set (addrs t)"
  by (induction t) (auto simp: addrs_Node)

lemma find_loop_RecD:
  assumes "t \<noteq> Null" and "find_loop cmp t x = (p, res)"
  obtains a where "p = Rec a" and "a \<in> set (addrs t)"
  using find_loop_Rec [OF assms(1), of cmp x] assms(2) by auto

lemma find_loop_found:
  "find_loop cmp t x = (p, THERE_IS) \<Longrightarrow>
     \<exists>a k. p = Rec a \<and> (a, k) \<in> set (inorder t) \<and> equivalent cmp k x"
  by (induction t) (auto simp: equivalent_def split: if_splits)

lemma find_loop_there:
  assumes "strict_weak cmp"
  shows "bst cmp t \<Longrightarrow> t \<noteq> Null \<Longrightarrow>
     (snd (find_loop cmp t x) = THERE_IS) = (\<exists>e\<in>set (inorder t). equivalent cmp (snd e) x)"
proof (induction t)
  case Null
  then show ?case by simp
next
  case (Node l a k r)
  from Node.prems(1) assms have bl: "bst cmp l" and br: "bst cmp r"
    and ll: "\<forall>e\<in>set (inorder l). cmp (snd e) k"
    and rr: "\<forall>e\<in>set (inorder r). cmp k (snd e)"
    by (simp_all add: bst_Node)
  show ?case
  proof (cases "cmp k x")
    case True
    have nl: "\<not> (\<exists>e\<in>set (inorder l). equivalent cmp (snd e) x)"
      using ll True assms by (auto simp: equivalent_def dest: strict_weak_trans)
    have nk: "\<not> equivalent cmp k x" using True by (simp add: equivalent_def)
    show ?thesis
    proof (cases "r = Null")
      case True
      with \<open>cmp k x\<close> nl nk show ?thesis by auto
    next
      case False
      with Node.IH(2) [OF br False] \<open>cmp k x\<close> nl nk show ?thesis by auto
    qed
  next
    case False
    note nkx = False
    show ?thesis
    proof (cases "cmp x k")
      case True
      have nr: "\<not> (\<exists>e\<in>set (inorder r). equivalent cmp (snd e) x)"
        using rr True assms by (auto simp: equivalent_def dest: strict_weak_trans)
      have nk: "\<not> equivalent cmp k x" using True by (simp add: equivalent_def)
      show ?thesis
      proof (cases "l = Null")
        case True
        with \<open>cmp x k\<close> nkx nr nk show ?thesis by auto
      next
        case False
        with Node.IH(1) [OF bl False] \<open>cmp x k\<close> nkx nr nk show ?thesis by auto
      qed
    next
      case False
      with nkx show ?thesis by (auto simp: equivalent_def)
    qed
  qed
qed

lemma find_res_there:
  "tree_ok t \<Longrightarrow> (snd (find_res t x) = THERE_IS) = has_key t x"
  using find_loop_there [of "comp t" "sentinel_left t" x]
  by (auto simp: find_res_def tree_ok_def has_key_def)

lemma find_res_cases:
  obtains (empty) "sentinel_left t = Null" "find_res t x = (sentinel t, ADD_LEFT)"
  | (node) a res where "sentinel_left t \<noteq> Null" "find_res t x = (Rec a, res)"
      "find_loop (comp t) (sentinel_left t) x = (Rec a, res)" "a \<in> set (addrs (sentinel_left t))"
proof (cases "sentinel_left t = Null")
  case True
  then show ?thesis using empty by (simp add: find_res_def)
next
  case False
  obtain p res where pr: "find_loop (comp t) (sentinel_left t) x = (p, res)"
    by (cases "find_loop (comp t) (sentinel_left t) x")
  from find_loop_RecD [OF False pr] obtain a where "p = Rec a" "a \<in> set (addrs (sentinel_left t))"
    by blast
  with False pr show ?thesis using node by (simp add: find_res_def)
qed

lemma tree_find_end_iff:
  assumes "tree_ok t"
  shows "(tree_find t x = tree_end t) = (\<not> has_key t x)"
proof (cases rule: find_res_cases [of t x])
  case empty
  then show ?thesis by (simp add: tree_find_def tree_end_def has_key_def)
next
  case (node a res)
  from assms obtain tg where "sentinel t = Sentinel tg" by (auto simp: tree_ok_def)
  with node find_res_there [OF assms, of x] show ?thesis
    by (auto simp: tree_find_def tree_end_def)
qed

lemma tree_find_has_key:
  assumes "tree_ok t" and "has_key t x"
  shows "\<exists>a k. tree_find t x = Rec a \<and> (a, k) \<in> set (inorder (sentinel_left t)) \<and>
           equivalent (comp t) k x"
proof -
  from assms have th: "snd (find_res t x) = THERE_IS" by (simp add: find_res_there)
  from assms(2) have nn: "sentinel_left t \<noteq> Null" by (auto simp: has_key_def)
  obtain p where p: "find_loop (comp t) (sentinel_left t) x = (p, THERE_IS)"
    using th nn by (cases "find_loop (comp t) (sentinel_left t) x") (simp add: find_res_def)
  from find_loop_found [OF p] nn p show ?thesis
    by (auto simp: tree_find_def find_res_def)
qed

subsection \<open>Insertion into a sorted sequence\<close>

lemma set_ins_by: "set (ins_by cmp e xs) = insert e (set xs)"
  by (induction xs) auto

lemma length_ins_by: "length (ins_by cmp e xs) = Suc (length xs)"
  by (induction xs) auto

lemma ins_by_append_all:
  "\<forall>y\<in>set xs. cmp (snd y) (snd e) \<Longrightarrow> ins_by cmp e (xs @ ys) = xs @ ins_by cmp e ys"
  by (induction xs) auto

lemma ins_by_append_stop:
  "\<not> cmp (snd y) (snd e) \<Longrightarrow> ins_by cmp e (xs @ y # ys) = ins_by cmp e xs @ y # ys"
  by (induction xs) auto

lemma sorted_ins_by:
  assumes sw: "strict_weak cmp"
  shows "sorted_wrt (\<lambda>x y. cmp (snd x) (snd y)) xs \<Longrightarrow>
     \<forall>y\<in>set xs. \<not> equivalent cmp (snd y) (snd e) \<Longrightarrow>
     sorted_wrt (\<lambda>x y. cmp (snd x) (snd y)) (ins_by cmp e xs)"
proof (induction xs)
  case Nil
  then show ?case by simp
next
  case (Cons y ys)
  show ?case
  proof (cases "cmp (snd y) (snd e)")
    case True
    with Cons show ?thesis by (auto simp: set_ins_by)
  next
    case False
    with Cons.prems(2) have ey: "cmp (snd e) (snd y)" by (auto simp: equivalent_def)
    have "\<forall>z\<in>set ys. cmp (snd e) (snd z)"
      using Cons.prems(1) ey sw by (auto dest: strict_weak_trans)
    with False ey Cons.prems(1) show ?thesis by simp
  qed
qed

subsection \<open>Linking a new node\<close>

lemma link_left_notin: "b \<notin> set (addrs t) \<Longrightarrow> link_left t b d = t"
  by (induction t) (auto simp: addrs_Node)

lemma link_right_notin: "b \<notin> set (addrs t) \<Longrightarrow> link_right t b d = t"
  by (induction t) (auto simp: addrs_Node)

lemma inorder_link:
  assumes sw: "strict_weak cmp"
  shows "bst cmp t \<Longrightarrow> distinct (addrs t) \<Longrightarrow> t \<noteq> Null \<Longrightarrow>
     find_loop cmp t k = (Rec b, res) \<Longrightarrow> res \<noteq> THERE_IS \<Longrightarrow>
     inorder (if res = ADD_LEFT then link_left t b (Node Null a k Null)
              else link_right t b (Node Null a k Null)) = ins_by cmp (a, k) (inorder t)"
proof (induction t)
  case Null
  then show ?case by simp
next
  case (Node l c k' r)
  let ?d = "Node Null a k Null"
  from Node.prems(1) sw have bl: "bst cmp l" and br: "bst cmp r"
    and ll: "\<forall>e\<in>set (inorder l). cmp (snd e) k'"
    and rr: "\<forall>e\<in>set (inorder r). cmp k' (snd e)"
    by (simp_all add: bst_Node)
  from Node.prems(2) have dl: "distinct (addrs l)" and dr: "distinct (addrs r)"
    and cl: "c \<notin> set (addrs l)" and cr: "c \<notin> set (addrs r)"
    and lr: "set (addrs l) \<inter> set (addrs r) = {}"
    by (auto simp: addrs_Node)
  show ?case
  proof (cases "cmp k' k")
    case True
    have all: "\<forall>y\<in>set (inorder l @ [(c, k')]). cmp (snd y) (snd (a, k))"
      using ll True sw by (auto dest: strict_weak_trans)
    show ?thesis
    proof (cases "r = Null")
      case True
      with \<open>cmp k' k\<close> Node.prems(4) have "b = c" "res = ADD_RIGHT" by auto
      with True ins_by_append_all [where xs = "inorder l @ [(c, k')]" and cmp = cmp
          and e = "(a, k)" and ys = "[]"] all show ?thesis by simp
    next
      case False
      with \<open>cmp k' k\<close> Node.prems(4) have fr: "find_loop cmp r k = (Rec b, res)" by simp
      from find_loop_RecD [OF False fr] have br': "b \<in> set (addrs r)" by auto
      with cr lr have bc: "b \<noteq> c" and bl': "b \<notin> set (addrs l)" by auto
      from Node.IH(2) [OF br dr False fr Node.prems(5)]
      have "inorder (if res = ADD_LEFT then link_left r b ?d else link_right r b ?d) =
              ins_by cmp (a, k) (inorder r)" .
      with bc bl' ins_by_append_all [where xs = "inorder l @ [(c, k')]" and cmp = cmp
          and e = "(a, k)" and ys = "inorder r"] all show ?thesis
        by (auto simp: link_left_notin link_right_notin)
    qed
  next
    case False
    note nk = False
    with Node.prems(4,5) have kk: "cmp k k'" by (auto split: if_splits)
    have stop: "\<not> cmp (snd (c, k')) (snd (a, k))" using nk by simp
    show ?thesis
    proof (cases "l = Null")
      case True
      with nk kk Node.prems(4) have "b = c" "res = ADD_LEFT" by auto
      with True nk show ?thesis by simp
    next
      case False
      with nk kk Node.prems(4) have fl: "find_loop cmp l k = (Rec b, res)" by simp
      from find_loop_RecD [OF False fl] have bl': "b \<in> set (addrs l)" by auto
      with cl lr have bc: "b \<noteq> c" and br': "b \<notin> set (addrs r)" by auto
      from Node.IH(1) [OF bl dl False fl Node.prems(5)]
      have "inorder (if res = ADD_LEFT then link_left l b ?d else link_right l b ?d) =
              ins_by cmp (a, k) (inorder l)" .
      with bc br' ins_by_append_stop [where y = "(c, k')" and cmp = cmp and e = "(a, k)"
          and xs = "inorder l" and ys = "inorder r"] stop show ?thesis
        by (auto simp: link_left_notin link_right_notin)
    qed
  qed
qed

subsection \<open>Unlinking\<close>

lemma take_min_inorder:
  "take_min l a k r = (m, t') \<Longrightarrow> inorder (Node l a k r) = m # inorder t'"
  by (induction l arbitrary: a k r t') (auto split: prod.splits)

lemma inorder_unlink_node:
  "distinct (addrs t) \<Longrightarrow>
     inorder (unlink_node t a) = filter (\<lambda>e. fst e \<noteq> a) (inorder t)"
proof (induction t)
  case Null
  then show ?case by simp
next
  case (Node l b k r)
  from Node.prems have dl: "distinct (addrs l)" and dr: "distinct (addrs r)"
    and bl: "b \<notin> set (addrs l)" and br: "b \<notin> set (addrs r)"
    by (auto simp: addrs_Node)
  show ?case
  proof (cases "a = b")
    case True
    have fl: "filter (\<lambda>e. fst e \<noteq> a) (inorder l) = inorder l"
      using bl True by (auto simp: addrs_def filter_id_conv)
    have fr: "filter (\<lambda>e. fst e \<noteq> a) (inorder r) = inorder r"
      using br True by (auto simp: addrs_def filter_id_conv)
    have rhs: "filter (\<lambda>e. fst e \<noteq> a) (inorder (Node l b k r)) = inorder l @ inorder r"
      using True fl fr by simp
    have lhs: "inorder (unlink_node (Node l b k r) a) = inorder l @ inorder r"
    proof (cases r)
      case Null
      with True show ?thesis by simp
    next
      case (Node rl rb rk rr)
      obtain m mk r' where tm: "take_min rl rb rk rr = ((m, mk), r')"
        by (cases "take_min rl rb rk rr") auto
      from take_min_inorder [OF tm] Node have "inorder r = (m, mk) # inorder r'" by simp
      with True Node tm show ?thesis by simp
    qed
    from lhs rhs show ?thesis by simp
  next
    case False
    with Node.IH(1) [OF dl] Node.IH(2) [OF dr] show ?thesis by simp
  qed
qed

subsection \<open>Stepping\<close>

lemma min_addr_inorder:
  "min_addr t p = (case inorder t of [] \<Rightarrow> p | e # _ \<Rightarrow> Rec (fst e))"
  by (induction t arbitrary: p) (auto split: list.splits)

lemma next_node_None: "a \<notin> set (addrs t) \<Longrightarrow> next_node t a up = None"
  by (induction t arbitrary: up) (auto simp: addrs_Node)

lemma distinct_fst_split:
  "distinct (map fst zs) \<Longrightarrow> zs = xs @ (a, k) # ys \<Longrightarrow> zs = xs' @ (a, k') # ys' \<Longrightarrow>
     xs = xs' \<and> k = k' \<and> ys = ys'"
proof (induction xs arbitrary: xs' zs)
  case Nil
  show ?case
  proof (cases xs')
    case Nil
    with Nil.prems show ?thesis by simp
  next
    case (Cons x' xs'')
    with Nil.prems(2,3) have "x' = (a, k)" and "ys = xs'' @ (a, k') # ys'" by simp_all
    with Nil.prems(1,2) have False by simp
    then show ?thesis ..
  qed
next
  case (Cons x xs)
  show ?case
  proof (cases xs')
    case Nil
    with Cons.prems(2,3) have "x = (a, k')" by simp
    with Cons.prems(1,2) have False by simp
    then show ?thesis ..
  next
    case (Cons x' xs'')
    with Cons.prems(2,3) have xx: "x = x'" and tl: "xs @ (a, k) # ys = xs'' @ (a, k') # ys'"
      by simp_all
    from Cons.prems(1,2) have "distinct (map fst (xs @ (a, k) # ys))" by simp
    from Cons.IH [OF this refl tl] xx Cons show ?thesis by simp
  qed
qed

lemma next_node_inorder:
  "distinct (addrs t) \<Longrightarrow> inorder t = xs @ (a, k) # ys \<Longrightarrow>
     next_node t a up = Some (case ys of [] \<Rightarrow> up | e # _ \<Rightarrow> Rec (fst e))"
proof (induction t arbitrary: up xs ys)
  case Null
  then show ?case by simp
next
  case (Node l b k' r)
  from Node.prems(1) have dl: "distinct (addrs l)" and dr: "distinct (addrs r)"
    and bl: "b \<notin> set (addrs l)" and br: "b \<notin> set (addrs r)"
    and lr: "set (addrs l) \<inter> set (addrs r) = {}"
    by (auto simp: addrs_Node)
  from Node.prems(1) have dt: "distinct (map fst (inorder (Node l b k' r)))"
    by (simp add: addrs_def)
  note eq = Node.prems(2)
  show ?case
  proof (cases "a = b")
    case True
    have "inorder (Node l b k' r) = inorder l @ (a, k') # inorder r" using True by simp
    from distinct_fst_split [OF dt eq this] True show ?thesis
      by (simp add: min_addr_inorder)
  next
    case False
    from eq have "(a, k) \<in> set (inorder (Node l b k' r))" by simp
    with False consider (left) "(a, k) \<in> set (inorder l)" | (right) "(a, k) \<in> set (inorder r)"
      by auto
    then show ?thesis
    proof cases
      case left
      then obtain xs1 zs where il: "inorder l = xs1 @ (a, k) # zs"
        by (auto dest: split_list)
      then have "inorder (Node l b k' r) = xs1 @ (a, k) # (zs @ (b, k') # inorder r)" by simp
      from distinct_fst_split [OF dt eq this] have ys: "ys = zs @ (b, k') # inorder r" by simp
      from Node.IH(1) [OF dl il, of "Rec b"] ys False show ?thesis
        by (cases zs) auto
    next
      case right
      then obtain zs ys1 where ir: "inorder r = zs @ (a, k) # ys1"
        by (auto dest: split_list)
      then have "inorder (Node l b k' r) = (inorder l @ (b, k') # zs) @ (a, k) # ys1" by simp
      from distinct_fst_split [OF dt eq this] have ys: "ys = ys1" by simp
      from right have "a \<in> set (addrs r)" by (rule in_inorder_addrs)
      with lr have "a \<notin> set (addrs l)" by auto
      with Node.IH(2) [OF dr ir, of up] ys False show ?thesis
        by (simp add: next_node_None)
    qed
  qed
qed

subsection \<open>The positions of a traversal\<close>

text \<open>
  \<open>begin()\<close> is the first of the positions, or end when there is none, and \<open>++\<close>
  steps from each position to the one after it, from the last one to end: a loop from
  \<open>begin()\<close> to \<open>end()\<close> visits exactly \<open>positions t\<close>, in this order.
\<close>

lemma tree_begin_positions:
  "tree_begin t = (case positions t of [] \<Rightarrow> tree_end t | p # _ \<Rightarrow> p)"
  by (cases "inorder (sentinel_left t)")
     (simp_all add: tree_begin_def positions_def addrs_def tree_end_def min_addr_inorder)

lemma tree_next_positions:
  assumes ok: "tree_ok t" and ps: "positions t = ps @ p # qs"
  shows "tree_next t p = (case qs of [] \<Rightarrow> tree_end t | q # _ \<Rightarrow> q)"
proof -
  from ps obtain xs e ys where io: "inorder (sentinel_left t) = xs @ e # ys"
    and p: "p = Rec (fst e)" and qs: "qs = map Rec (map fst ys)"
    unfolding positions_def addrs_def
    by (auto simp: map_eq_append_conv map_eq_Cons_conv)
  obtain a k where e: "e = (a, k)" by (cases e)
  from ok have di: "distinct (addrs (sentinel_left t))" by (simp add: tree_ok_def)
  from next_node_inorder [OF di io [unfolded e], of "sentinel t"] p e qs
  show ?thesis by (cases ys) (simp_all add: tree_next_def tree_end_def)
qed

subsection \<open>The lower bound\<close>

lemma first_not_less_Nil: "first_not_less cmp x [] up = up"
  by (simp add: first_not_less_def)

lemma first_not_less_all:
  "\<forall>e\<in>set xs. cmp (snd e) x \<Longrightarrow>
     first_not_less cmp x (xs @ ys) up = first_not_less cmp x ys up"
  by (induction xs) (auto simp: first_not_less_def)

lemma first_not_less_stop:
  "\<not> cmp (snd y) x \<Longrightarrow>
     first_not_less cmp x (xs @ y # ys) up = first_not_less cmp x xs (Rec (fst y))"
  by (induction xs) (auto simp: first_not_less_def)

lemma find_loop_lower:
  assumes sw: "strict_weak cmp"
  shows "bst cmp t \<Longrightarrow> distinct (addrs t) \<Longrightarrow> t \<noteq> Null \<Longrightarrow>
     find_loop cmp t x = (cur, res) \<Longrightarrow>
     (res = ADD_RIGHT \<longrightarrow>
        (\<exists>a. cur = Rec a \<and> next_node t a up = Some (first_not_less cmp x (inorder t) up))) \<and>
     (res \<noteq> ADD_RIGHT \<longrightarrow> cur = first_not_less cmp x (inorder t) up)"
proof (induction t arbitrary: up)
  case Null
  then show ?case by simp
next
  case (Node l c k r)
  from Node.prems(1) sw have bl: "bst cmp l" and br: "bst cmp r"
    and ll: "\<forall>e\<in>set (inorder l). cmp (snd e) k"
    and rr: "\<forall>e\<in>set (inorder r). cmp k (snd e)"
    by (simp_all add: bst_Node)
  from Node.prems(2) have dl: "distinct (addrs l)" and dr: "distinct (addrs r)"
    and cl: "c \<notin> set (addrs l)" and cr: "c \<notin> set (addrs r)"
    and lr: "set (addrs l) \<inter> set (addrs r) = {}"
    by (auto simp: addrs_Node)
  show ?case
  proof (cases "cmp k x")
    case True
    have "\<forall>e\<in>set (inorder l @ [(c, k)]). cmp (snd e) x"
      using ll True sw by (auto dest: strict_weak_trans)
    from first_not_less_all [where xs = "inorder l @ [(c, k)]" and cmp = cmp and x = x
        and ys = "inorder r" and up = up] this
    have dw: "first_not_less cmp x (inorder (Node l c k r)) up =
              first_not_less cmp x (inorder r) up" by simp
    show ?thesis
    proof (cases "r = Null")
      case True
      with \<open>cmp k x\<close> Node.prems(4) have "cur = Rec c" "res = ADD_RIGHT" by auto
      with True dw show ?thesis by (simp add: first_not_less_Nil)
    next
      case False
      with \<open>cmp k x\<close> Node.prems(4) have fr: "find_loop cmp r x = (cur, res)" by simp
      from find_loop_RecD [OF False fr] obtain b where b: "cur = Rec b" "b \<in> set (addrs r)"
        by blast
      with cr lr have bc: "b \<noteq> c" and bl': "b \<notin> set (addrs l)" by auto
      then have nn: "next_node (Node l c k r) b up = next_node r b up"
        by (simp add: next_node_None)
      from Node.IH(2) [OF br dr False fr, of up] b bc bl' show ?thesis
        unfolding dw by (auto simp: next_node_None)
    qed
  next
    case False
    note nkx = False
    have dw: "first_not_less cmp x (inorder (Node l c k r)) up =
              first_not_less cmp x (inorder l) (Rec c)"
      using first_not_less_stop [of cmp "(c, k)" x "inorder l" "inorder r" up] nkx by simp
    show ?thesis
    proof (cases "cmp x k")
      case True
      show ?thesis
      proof (cases "l = Null")
        case True
        with \<open>cmp x k\<close> nkx Node.prems(4) have "cur = Rec c" "res = ADD_LEFT" by auto
        with True show ?thesis unfolding dw by (simp add: first_not_less_Nil)
      next
        case False
        with \<open>cmp x k\<close> nkx Node.prems(4) have fl: "find_loop cmp l x = (cur, res)" by simp
        from find_loop_RecD [OF False fl] obtain b where b: "cur = Rec b" "b \<in> set (addrs l)"
          by blast
        with cl have bc: "b \<noteq> c" by auto
        have nn: "\<And>p. next_node l b (Rec c) = Some p \<Longrightarrow> next_node (Node l c k r) b up = Some p"
          using bc by simp
        from Node.IH(1) [OF bl dl False fl, of "Rec c"] b nn show ?thesis
          unfolding dw by auto
      qed
    next
      case False
      with nkx Node.prems(4) have cr': "cur = Rec c" "res = THERE_IS" by auto
      have "\<forall>e\<in>set (inorder l). cmp (snd e) x"
      proof
        fix e assume "e \<in> set (inorder l)"
        with ll have "cmp (snd e) k" by simp
        from strict_weak_cut [OF sw this, of x] False show "cmp (snd e) x" by simp
      qed
      from first_not_less_all [where xs = "inorder l" and cmp = cmp and x = x
          and ys = "[]" and up = "Rec c"] this
      have "first_not_less cmp x (inorder l) (Rec c) = Rec c" by (simp add: first_not_less_Nil)
      with cr' show ?thesis unfolding dw by simp
    qed
  qed
qed

lemma dropWhile_lower_bound:
  assumes sw: "strict_weak cmp"
    and so: "sorted_wrt (\<lambda>x y. cmp (snd x) (snd y)) xs"
    and dw: "dropWhile (\<lambda>e. cmp (snd e) x) xs = e # es"
  shows "e \<in> set xs \<and> \<not> cmp (snd e) x \<and>
         (\<forall>e'\<in>set xs. \<not> cmp (snd e') x \<longrightarrow> \<not> cmp (snd e') (snd e))"
proof -
  let ?P = "\<lambda>e. cmp (snd e) x"
  have xs: "xs = takeWhile ?P xs @ e # es"
    using takeWhile_dropWhile_id [of ?P xs] dw by simp
  then have mem: "e \<in> set xs" by (metis in_set_conv_decomp)
  have ne: "\<not> ?P e" using hd_dropWhile [of ?P xs] dw by simp
  from so xs have "sorted_wrt (\<lambda>x y. cmp (snd x) (snd y)) (takeWhile ?P xs @ e # es)" by simp
  then have after: "\<forall>e'\<in>set es. cmp (snd e) (snd e')" by (simp add: sorted_wrt_append)
  have "\<not> cmp (snd e') (snd e)" if "e' \<in> set xs" "\<not> ?P e'" for e'
  proof -
    from that(1) xs have "e' \<in> set (takeWhile ?P xs) \<or> e' = e \<or> e' \<in> set es"
      by (metis Un_iff set_ConsD set_append)
    with that(2) have "e' = e \<or> e' \<in> set es" by (auto dest: set_takeWhileD)
    with after sw show ?thesis by (auto dest: strict_weak_asym simp: strict_weak_irrefl)
  qed
  with mem ne show ?thesis by blast
qed

lemma find_next_lower_bound:
  assumes ok: "tree_ok t"
  shows "is_lower_bound t x (find_next t x)"
proof -
  let ?P = "\<lambda>e. comp t (snd e) x"
  let ?xs = "inorder (sentinel_left t)"
  from ok have sw: "strict_weak (comp t)" and bs: "bst (comp t) (sentinel_left t)"
    and di: "distinct (addrs (sentinel_left t))"
    by (simp_all add: tree_ok_def)
  have fn: "find_next t x = first_not_less (comp t) x ?xs (sentinel t)"
  proof (cases rule: find_res_cases [of t x])
    case empty
    then show ?thesis by (simp add: find_next_def first_not_less_Nil)
  next
    case (node a res)
    from find_loop_lower [OF sw bs di node(1) node(3), of "sentinel t"]
    have 1: "res = ADD_RIGHT \<Longrightarrow>
               next_node (sentinel_left t) a (sentinel t) = Some (first_not_less (comp t) x ?xs (sentinel t))"
      and 2: "res \<noteq> ADD_RIGHT \<Longrightarrow> Rec a = first_not_less (comp t) x ?xs (sentinel t)"
      by auto
    show ?thesis
    proof (cases "res = ADD_RIGHT")
      case True
      with 1 node(2) show ?thesis by (simp add: find_next_def tree_next_def)
    next
      case False
      then have "res = THERE_IS \<or> res = ADD_LEFT" by (cases res) auto
      with 2 [OF False] node(2) show ?thesis by (auto simp: find_next_def)
    qed
  qed
  from bs have so: "sorted_wrt (\<lambda>x y. comp t (snd x) (snd y)) ?xs" by (simp add: bst_def)
  show ?thesis
  proof (cases "dropWhile ?P ?xs")
    case Nil
    then have "\<forall>e\<in>set ?xs. ?P e" by (simp add: dropWhile_eq_Nil_conv)
    with fn Nil show ?thesis by (simp add: is_lower_bound_def tree_end_def first_not_less_def)
  next
    case (Cons e es)
    from dropWhile_lower_bound [OF sw so Cons]
    have e: "e \<in> set ?xs" "\<not> ?P e"
      "\<forall>e'\<in>set ?xs. \<not> ?P e' \<longrightarrow> \<not> comp t (snd e') (snd e)" by simp_all
    then have "\<not> (\<forall>e\<in>set ?xs. ?P e)" by blast
    moreover from fn Cons have "find_next t x = Rec (fst e)" by (simp add: first_not_less_def)
    ultimately show ?thesis using e unfolding is_lower_bound_def by auto
  qed
qed

subsection \<open>Removal by value\<close>

lemma tree_remove_present:
  assumes "tree_ok t" and "has_key t v"
  shows "tree_remove t v = (tree_end t, t)"
proof -
  from assms have "snd (find_res t v) = THERE_IS" by (simp add: find_res_there)
  then show ?thesis by (simp add: tree_remove_def split_beta)
qed

subsection \<open>The example index\<close>

lemma example_tree_eq:
  "example_tree = \<lparr>sentinel = Sentinel left_tag,
      sentinel_left = Node (Node Null 2 10 Null) 1 20 (Node Null 3 30 Null),
      sentinel_right = nullptr, comp = (<), n_node = 3\<rparr>"
  by (simp add: example_tree_def tree_insert_def find_res_def tree_ctor_def set_left_def
      set_right_def)

lemma example_tree_ok: "tree_ok example_tree"
  by (simp add: example_tree_eq tree_ok_def strict_weak_less bst_def addrs_def)

subsection \<open>Insertion and unlinking keep an index well formed\<close>

lemma distinct_ins_by:
  "a \<notin> fst ` set xs \<Longrightarrow> distinct (map fst xs) \<Longrightarrow> distinct (map fst (ins_by cmp (a, k) xs))"
  by (induction xs) (auto simp: set_ins_by)

lemma ins_by_last:
  "\<forall>y\<in>set xs. cmp (snd y) (snd e) \<Longrightarrow> ins_by cmp e xs = xs @ [e]"
  using ins_by_append_all [where xs = xs and cmp = cmp and e = e and ys = "[]"] by simp

lemma tree_insert_fields:
  assumes "\<exists>tg. sentinel t = Sentinel tg"
  shows "sentinel (snd (tree_insert t a k)) = sentinel t \<and>
         sentinel_right (snd (tree_insert t a k)) = sentinel_right t \<and>
         comp (snd (tree_insert t a k)) = comp t"
proof (cases rule: find_res_cases [of t k])
  case empty
  with assms show ?thesis by (auto simp: tree_insert_def set_left_def)
next
  case (node b res)
  then show ?thesis by (auto simp: tree_insert_def set_left_def set_right_def Let_def)
qed

lemma tree_insert_new:
  assumes ok: "tree_ok t" and nk: "\<not> has_key t k"
  shows "fst (tree_insert t a k) = Rec a \<and>
         inorder (sentinel_left (snd (tree_insert t a k))) =
           ins_by (comp t) (a, k) (inorder (sentinel_left t)) \<and>
         n_node (snd (tree_insert t a k)) = n_node t + 1"
proof -
  from ok have sw: "strict_weak (comp t)" and bs: "bst (comp t) (sentinel_left t)"
    and di: "distinct (addrs (sentinel_left t))"
    and se: "\<exists>tg. sentinel t = Sentinel tg"
    by (auto simp: tree_ok_def)
  from nk find_res_there [OF ok, of k] have nt: "snd (find_res t k) \<noteq> THERE_IS" by simp
  show ?thesis
  proof (cases rule: find_res_cases [of t k])
    case empty
    with se show ?thesis by (auto simp: tree_insert_def set_left_def)
  next
    case (node b res)
    with nt have res: "res \<noteq> THERE_IS" by simp
    from inorder_link [OF sw bs di node(1) node(3) res, of a]
    have il: "inorder (if res = ADD_LEFT then link_left (sentinel_left t) b (Node Null a k Null)
                else link_right (sentinel_left t) b (Node Null a k Null)) =
              ins_by (comp t) (a, k) (inorder (sentinel_left t))" .
    from res have "res = ADD_LEFT \<or> res = ADD_RIGHT" by (cases res) auto
    then show ?thesis
    proof
      assume "res = ADD_LEFT"
      with node(2) il show ?thesis by (simp add: tree_insert_def set_left_def)
    next
      assume "res = ADD_RIGHT"
      with node(2) il show ?thesis by (simp add: tree_insert_def set_right_def)
    qed
  qed
qed

lemma tree_insert_present:
  assumes "tree_ok t" and "has_key t k"
  shows "tree_insert t a k = (tree_end t, t)"
proof -
  from assms have "snd (find_res t k) = THERE_IS" by (simp add: find_res_there)
  then show ?thesis by (simp add: tree_insert_def split_beta)
qed

lemma tree_ok_insert:
  assumes ok: "tree_ok t" and nk: "\<not> has_key t k" and fresh: "a \<notin> set (addrs (sentinel_left t))"
  shows "tree_ok (snd (tree_insert t a k))"
proof -
  let ?t' = "snd (tree_insert t a k)"
  from ok have sw: "strict_weak (comp t)" and bs: "bst (comp t) (sentinel_left t)"
    and di: "distinct (addrs (sentinel_left t))"
    and se: "\<exists>tg. sentinel t = Sentinel tg"
    by (auto simp: tree_ok_def)
  from tree_insert_new [OF ok nk, of a]
  have io: "inorder (sentinel_left ?t') = ins_by (comp t) (a, k) (inorder (sentinel_left t))"
    by simp
  from tree_insert_fields [OF se, of a k]
  have fs: "sentinel ?t' = sentinel t" "comp ?t' = comp t" by simp_all
  from nk have "\<forall>y\<in>set (inorder (sentinel_left t)). \<not> equivalent (comp t) (snd y) (snd (a, k))"
    by (simp add: has_key_def)
  from sorted_ins_by [OF sw _ this] bs
  have "bst (comp t) (sentinel_left ?t')" by (simp add: bst_def io)
  moreover from fresh di have "distinct (addrs (sentinel_left ?t'))"
    unfolding addrs_def io by (intro distinct_ins_by) simp_all
  ultimately show ?thesis using sw se fs by (simp add: tree_ok_def)
qed

lemma unlink_fields:
  "sentinel (unlink t p) = sentinel t \<and> sentinel_right (unlink t p) = sentinel_right t \<and>
   comp (unlink t p) = comp t \<and> n_node (unlink t p) = n_node t"
  by (simp add: unlink_def split: ptr.splits)

lemma inorder_unlink:
  "tree_ok t \<Longrightarrow> inorder (sentinel_left (unlink t (Rec a))) =
     filter (\<lambda>e. fst e \<noteq> a) (inorder (sentinel_left t))"
  by (simp add: unlink_def tree_ok_def inorder_unlink_node)

lemma tree_ok_unlink:
  assumes ok: "tree_ok t"
  shows "tree_ok (unlink t p)"
proof (cases p)
  case (Rec a)
  from ok have sw: "strict_weak (comp t)" and bs: "bst (comp t) (sentinel_left t)"
    and di: "distinct (addrs (sentinel_left t))"
    and se: "\<exists>tg. sentinel t = Sentinel tg"
    by (auto simp: tree_ok_def)
  have io: "inorder (sentinel_left (unlink t (Rec a))) =
     filter (\<lambda>e. fst e \<noteq> a) (inorder (sentinel_left t))" using ok by (rule inorder_unlink)
  have "bst (comp t) (sentinel_left (unlink t (Rec a)))"
    using bs unfolding bst_def io by (rule sorted_wrt_filter)
  moreover have "distinct (addrs (sentinel_left (unlink t (Rec a))))"
    using di unfolding addrs_def io by (simp add: distinct_map_filter)
  ultimately show ?thesis using Rec sw se unlink_fields [of t p] by (simp add: tree_ok_def)
qed (use ok in \<open>simp_all add: unlink_def\<close>)

lemma sorted_wrt_comparable:
  "sorted_wrt R xs \<Longrightarrow> x \<in> set xs \<Longrightarrow> y \<in> set xs \<Longrightarrow> x \<noteq> y \<Longrightarrow> R x y \<or> R y x"
  by (induction xs) auto


section \<open>Properties of the container\<close>

subsection \<open>Insertion\<close>

lemma foldr_max_ge: "x \<in> set xs \<Longrightarrow> x \<le> foldr max xs (0::nat)"
  by (induction xs) (auto simp: max_def)

lemma new_addr_fresh:
  "new_addr B \<notin> set (addrs (sentinel_left (left_tree B))) \<and>
   new_addr B \<notin> set (addrs (sentinel_left (right_tree B)))"
proof -
  let ?xs = "addrs (sentinel_left (left_tree B)) @ addrs (sentinel_left (right_tree B))"
  have "new_addr B \<notin> set ?xs"
  proof
    assume "new_addr B \<in> set ?xs"
    from foldr_max_ge [OF this] show False by (simp add: new_addr_def)
  qed
  then show ?thesis by simp
qed

lemma insert_present:
  assumes "bimap_ok B" and "has_key (left_tree B) l \<or> has_key (right_tree B) r"
  shows "bimap_insert B l r = (end_left B, B)"
  using assms tree_find_end_iff [of "left_tree B" l] tree_find_end_iff [of "right_tree B" r]
  by (auto simp: bimap_insert_def add_def bimap_ok_def)

lemma insert_absent_eq:
  assumes "bimap_ok B" and "\<not> has_key (left_tree B) l" and "\<not> has_key (right_tree B) r"
  shows "bimap_insert B l r =
           (fst (tree_insert (left_tree B) (new_addr B) l),
            B\<lparr>left_tree := snd (tree_insert (left_tree B) (new_addr B) l),
              right_tree := snd (tree_insert (right_tree B) (new_addr B) r),
              bimap_n_node := bimap_n_node B + 1\<rparr>)"
  using assms tree_find_end_iff [of "left_tree B" l] tree_find_end_iff [of "right_tree B" r]
  by (simp add: bimap_insert_def add_def bimap_ok_def split_beta Let_def)

lemma insert_absent:
  assumes ok: "bimap_ok B" and nl: "\<not> has_key (left_tree B) l"
    and nr: "\<not> has_key (right_tree B) r"
  shows "fst (bimap_insert B l r) = Rec (new_addr B)"
    and "inorder (sentinel_left (left_tree (snd (bimap_insert B l r)))) =
           ins_by (comp (left_tree B)) (new_addr B, l) (inorder (sentinel_left (left_tree B)))"
    and "inorder (sentinel_left (right_tree (snd (bimap_insert B l r)))) =
           ins_by (comp (right_tree B)) (new_addr B, r) (inorder (sentinel_left (right_tree B)))"
    and "bimap_n_node (snd (bimap_insert B l r)) = bimap_n_node B + 1"
    and "comp (left_tree (snd (bimap_insert B l r))) = comp (left_tree B)"
    and "comp (right_tree (snd (bimap_insert B l r))) = comp (right_tree B)"
    and "bimap_ok (snd (bimap_insert B l r))"
proof -
  let ?a = "new_addr B"
  let ?B' = "snd (bimap_insert B l r)"
  note eq = insert_absent_eq [OF ok nl nr]
  from ok have okl: "tree_ok (left_tree B)" and okr: "tree_ok (right_tree B)"
    and same: "set (addrs (sentinel_left (left_tree B))) = set (addrs (sentinel_left (right_tree B)))"
    and cnt: "bimap_n_node B = of_nat (length (addrs (sentinel_left (left_tree B))))"
    by (simp_all add: bimap_ok_def)
  from okl okr have sl: "\<exists>tg. sentinel (left_tree B) = Sentinel tg"
    and sr: "\<exists>tg. sentinel (right_tree B) = Sentinel tg" by (auto simp: tree_ok_def)
  note fresh = new_addr_fresh [of B]
  note il = tree_insert_new [OF okl nl, of ?a]
  note ir = tree_insert_new [OF okr nr, of ?a]
  show 1: "fst (bimap_insert B l r) = Rec ?a" using eq il by simp
  show 2: "inorder (sentinel_left (left_tree ?B')) =
           ins_by (comp (left_tree B)) (?a, l) (inorder (sentinel_left (left_tree B)))"
    using eq il by simp
  show 3: "inorder (sentinel_left (right_tree ?B')) =
           ins_by (comp (right_tree B)) (?a, r) (inorder (sentinel_left (right_tree B)))"
    using eq ir by simp
  show 4: "bimap_n_node ?B' = bimap_n_node B + 1" using eq by simp
  show "comp (left_tree ?B') = comp (left_tree B)"
    using eq tree_insert_fields [OF sl, of ?a l] by simp
  show "comp (right_tree ?B') = comp (right_tree B)"
    using eq tree_insert_fields [OF sr, of ?a r] by simp
  have "tree_ok (left_tree ?B')" using eq tree_ok_insert [OF okl nl] fresh by simp
  moreover have "tree_ok (right_tree ?B')" using eq tree_ok_insert [OF okr nr] fresh by simp
  moreover have "set (addrs (sentinel_left (left_tree ?B'))) =
                 set (addrs (sentinel_left (right_tree ?B')))"
    unfolding addrs_def 2 3 using same by (simp add: set_ins_by addrs_def)
  moreover have "bimap_n_node ?B' = of_nat (length (addrs (sentinel_left (left_tree ?B'))))"
    unfolding addrs_def 2 4 cnt by (simp add: length_ins_by)
  ultimately show "bimap_ok ?B'" by (simp add: bimap_ok_def)
qed

lemma bimap_ok_insert:
  assumes ok: "bimap_ok B"
  shows "bimap_ok (snd (bimap_insert B l r))"
proof (cases "has_key (left_tree B) l \<or> has_key (right_tree B) r")
  case True
  with insert_present [OF ok this] ok show ?thesis by simp
next
  case False
  with insert_absent(7) [OF ok] show ?thesis by simp
qed

subsection \<open>Erasure\<close>

lemma length_filter_addr:
  "distinct (map fst xs) \<Longrightarrow> a \<in> fst ` set xs \<Longrightarrow>
     Suc (length (filter (\<lambda>e. fst e \<noteq> a) xs)) = length xs"
proof (induction xs)
  case Nil
  then show ?case by simp
next
  case (Cons x xs)
  show ?case
  proof (cases "fst x = a")
    case True
    from Cons.prems(1) have "fst x \<notin> fst ` set xs" by simp
    with True have "\<forall>e\<in>set xs. fst e \<noteq> a" by (metis imageI)
    then have "filter (\<lambda>e. fst e \<noteq> a) xs = xs"
      by (simp add: filter_id_conv)
    with True show ?thesis by simp
  next
    case False
    with Cons show ?thesis by auto
  qed
qed

lemma delete_node_trees:
  "left_tree (delete_node B p) = unlink (left_tree B) p \<and>
   right_tree (delete_node B p) = unlink (right_tree B) p \<and>
   bimap_n_node (delete_node B p) = bimap_n_node B"
  by (simp add: delete_node_def)

lemma erase_it_trees:
  "left_tree (snd (erase_left_it B p)) = unlink (left_tree B) p \<and>
   right_tree (snd (erase_left_it B p)) = unlink (right_tree B) p \<and>
   bimap_n_node (snd (erase_left_it B p)) = bimap_n_node B - 1 \<and>
   snd (erase_right_it B p) = snd (erase_left_it B p)"
  by (simp add: erase_left_it_def erase_right_it_def delete_node_def Let_def)

lemma bimap_ok_erase_it:
  assumes ok: "bimap_ok B" and a: "a \<in> set (addrs (sentinel_left (left_tree B)))"
  shows "bimap_ok (snd (erase_left_it B (Rec a)))"
proof -
  let ?B' = "snd (erase_left_it B (Rec a))"
  from ok have okl: "tree_ok (left_tree B)" and okr: "tree_ok (right_tree B)"
    and same: "set (addrs (sentinel_left (left_tree B))) = set (addrs (sentinel_left (right_tree B)))"
    and cnt: "bimap_n_node B = of_nat (length (addrs (sentinel_left (left_tree B))))"
    by (simp_all add: bimap_ok_def)
  note tr = erase_it_trees [of B "Rec a"]
  have il: "inorder (sentinel_left (left_tree ?B')) =
              filter (\<lambda>e. fst e \<noteq> a) (inorder (sentinel_left (left_tree B)))"
    using tr inorder_unlink [OF okl, of a] by simp
  have ir: "inorder (sentinel_left (right_tree ?B')) =
              filter (\<lambda>e. fst e \<noteq> a) (inorder (sentinel_left (right_tree B)))"
    using tr inorder_unlink [OF okr, of a] by simp
  have al: "set (addrs (sentinel_left (left_tree ?B'))) =
            set (addrs (sentinel_left (left_tree B))) - {a}"
    unfolding addrs_def il by auto
  have ar: "set (addrs (sentinel_left (right_tree ?B'))) =
            set (addrs (sentinel_left (right_tree B))) - {a}"
    unfolding addrs_def ir by auto
  from okl a have "Suc (length (inorder (sentinel_left (left_tree ?B')))) =
                   length (inorder (sentinel_left (left_tree B)))"
    unfolding il by (intro length_filter_addr) (simp_all add: tree_ok_def addrs_def)
  then have "length (addrs (sentinel_left (left_tree B))) =
             Suc (length (addrs (sentinel_left (left_tree ?B'))))"
    by (simp add: addrs_def)
  with cnt tr have "bimap_n_node ?B' = of_nat (length (addrs (sentinel_left (left_tree ?B'))))"
    by simp
  moreover have "tree_ok (left_tree ?B')" using tr tree_ok_unlink [OF okl] by simp
  moreover have "tree_ok (right_tree ?B')" using tr tree_ok_unlink [OF okr] by simp
  ultimately show ?thesis using al ar same by (simp add: bimap_ok_def)
qed

lemma erase_left_eq:
  assumes ok: "bimap_ok B"
  shows "erase_left B l =
     (if has_key (left_tree B) l then (True, snd (erase_left_it B (tree_find (left_tree B) l)))
      else (False, B))"
  using ok tree_find_end_iff [of "left_tree B" l]
  by (auto simp: erase_left_def find_left_def end_left_def bimap_ok_def Let_def)

lemma erase_right_eq:
  assumes ok: "bimap_ok B"
  shows "erase_right B r =
     (if has_key (right_tree B) r then (True, snd (erase_left_it B (tree_find (right_tree B) r)))
      else (False, B))"
  using ok tree_find_end_iff [of "right_tree B" r] erase_it_trees [of B]
  by (auto simp: erase_right_def find_right_def end_right_def bimap_ok_def Let_def)

lemma bimap_ok_erase_left:
  assumes ok: "bimap_ok B"
  shows "bimap_ok (snd (erase_left B l))"
proof (cases "has_key (left_tree B) l")
  case True
  from ok have okl: "tree_ok (left_tree B)" by (simp add: bimap_ok_def)
  from tree_find_has_key [OF okl True] obtain a k where
    "tree_find (left_tree B) l = Rec a" "(a, k) \<in> set (inorder (sentinel_left (left_tree B)))"
    by blast
  with bimap_ok_erase_it [OF ok, of a] True erase_left_eq [OF ok, of l] show ?thesis
    by (auto dest: in_inorder_addrs)
next
  case False
  with ok erase_left_eq [OF ok, of l] show ?thesis by simp
qed


subsection \<open>The empty container\<close>

lemma bimap_ok_ctor:
  "strict_weak cl \<Longrightarrow> strict_weak cr \<Longrightarrow> bimap_ok (bimap_ctor cl cr)"
  by (simp add: bimap_ok_def bimap_ctor_def link_sentinel_def tree_ctor_def tree_ok_def
      bst_def addrs_def Let_def)

subsection \<open>Dereferencing and flipping\<close>

lemma map_of_inorder:
  "tree_ok t \<Longrightarrow> map_of (inorder (sentinel_left t)) a = Some k \<longleftrightarrow>
     (a, k) \<in> set (inorder (sentinel_left t))"
  by (simp add: tree_ok_def addrs_def)

lemma deref_Rec:
  "tree_ok t \<Longrightarrow> (a, k) \<in> set (inorder (sentinel_left t)) \<Longrightarrow> deref t (Rec a) = Inr k"
  using map_of_inorder [of t a k] by (simp add: deref_def)

lemma flip_Rec: "tree_ok t \<Longrightarrow> flip t (Rec a) = Rec a"
  by (auto simp: flip_def is_end_def tree_end_def tree_ok_def)

lemma pair_at_Some:
  assumes "bimap_ok B"
  shows "pair_at B a = Some (l, r) \<longleftrightarrow>
     (a, l) \<in> set (inorder (sentinel_left (left_tree B))) \<and>
     (a, r) \<in> set (inorder (sentinel_left (right_tree B)))"
proof -
  from assms have okl: "tree_ok (left_tree B)" and okr: "tree_ok (right_tree B)"
    by (simp_all add: bimap_ok_def)
  show ?thesis
    unfolding pair_at_def map_of_inorder [OF okl, symmetric] map_of_inorder [OF okr, symmetric]
    by (auto split: option.splits)
qed

lemma right_partner:
  assumes "bimap_ok B" and "(a, l) \<in> set (inorder (sentinel_left (left_tree B)))"
  shows "\<exists>r. (a, r) \<in> set (inorder (sentinel_left (right_tree B)))"
proof -
  from assms(2) have "a \<in> set (addrs (sentinel_left (left_tree B)))" by (rule in_inorder_addrs)
  with assms(1) have "a \<in> set (addrs (sentinel_left (right_tree B)))" by (simp add: bimap_ok_def)
  then show ?thesis by (auto simp: addrs_def)
qed

lemma left_partner:
  assumes "bimap_ok B" and "(a, r) \<in> set (inorder (sentinel_left (right_tree B)))"
  shows "\<exists>l. (a, l) \<in> set (inorder (sentinel_left (left_tree B)))"
proof -
  from assms(2) have "a \<in> set (addrs (sentinel_left (right_tree B)))" by (rule in_inorder_addrs)
  with assms(1) have "a \<in> set (addrs (sentinel_left (left_tree B)))" by (simp add: bimap_ok_def)
  then show ?thesis by (auto simp: addrs_def)
qed

lemma at_left_absent:
  assumes "bimap_ok B" and "\<not> has_key (left_tree B) k"
  shows "at_left B k = Inl out_of_range"
  using assms tree_find_end_iff [of "left_tree B" k]
  by (simp add: at_left_def find_left_def end_left_def bimap_ok_def)

lemma at_left_present:
  assumes ok: "bimap_ok B" and hk: "has_key (left_tree B) k"
  shows "\<exists>a l r. pair_at B a = Some (l, r) \<and> equivalent (comp (left_tree B)) l k \<and>
           find_left B k = Rec a \<and> at_left B k = Inr r"
proof -
  from ok have okl: "tree_ok (left_tree B)" and okr: "tree_ok (right_tree B)"
    by (simp_all add: bimap_ok_def)
  from tree_find_has_key [OF okl hk] obtain a l where
    f: "tree_find (left_tree B) k = Rec a" and m: "(a, l) \<in> set (inorder (sentinel_left (left_tree B)))"
    and e: "equivalent (comp (left_tree B)) l k" by blast
  from right_partner [OF ok m] obtain r where
    r: "(a, r) \<in> set (inorder (sentinel_left (right_tree B)))" by blast
  from okl have ne: "Rec a \<noteq> end_left B" by (auto simp: end_left_def tree_end_def tree_ok_def)
  have "at_left B k = Inr r"
    using f ne deref_Rec [OF okr r] flip_Rec [OF okl, of a]
    by (simp add: at_left_def find_left_def flip_left_def)
  with m r e f pair_at_Some [OF ok, of a l r] show ?thesis by (auto simp: find_left_def)
qed

lemma at_right_absent:
  assumes "bimap_ok B" and "\<not> has_key (right_tree B) k"
  shows "at_right B k = Inl out_of_range"
  using assms tree_find_end_iff [of "right_tree B" k]
  by (simp add: at_right_def find_right_def end_right_def bimap_ok_def)

lemma at_right_present:
  assumes ok: "bimap_ok B" and hk: "has_key (right_tree B) k"
  shows "\<exists>a l r. pair_at B a = Some (l, r) \<and> equivalent (comp (right_tree B)) r k \<and>
           find_right B k = Rec a \<and> at_right B k = Inr l"
proof -
  from ok have okl: "tree_ok (left_tree B)" and okr: "tree_ok (right_tree B)"
    by (simp_all add: bimap_ok_def)
  from tree_find_has_key [OF okr hk] obtain a r where
    f: "tree_find (right_tree B) k = Rec a" and m: "(a, r) \<in> set (inorder (sentinel_left (right_tree B)))"
    and e: "equivalent (comp (right_tree B)) r k" by blast
  from left_partner [OF ok m] obtain l where
    l: "(a, l) \<in> set (inorder (sentinel_left (left_tree B)))" by blast
  from okr have ne: "Rec a \<noteq> end_right B" by (auto simp: end_right_def tree_end_def tree_ok_def)
  have "at_right B k = Inr l"
    using f ne deref_Rec [OF okl l] flip_Rec [OF okr, of a]
    by (simp add: at_right_def find_right_def flip_right_def)
  with m l e f pair_at_Some [OF ok, of a l r] show ?thesis by (auto simp: find_right_def)
qed

subsection \<open>The example container\<close>

lemma empty_bimap_ok: "bimap_ok empty_bimap"
  unfolding empty_bimap_def by (intro bimap_ok_ctor strict_weak_less)

lemma example_bimap_ok: "bimap_ok example_bimap"
  unfolding example_bimap_def by (intro bimap_ok_insert empty_bimap_ok)

lemma bimap_insert_comp:
  assumes ok: "bimap_ok B"
  shows "comp (left_tree (snd (bimap_insert B l r))) = comp (left_tree B) \<and>
         comp (right_tree (snd (bimap_insert B l r))) = comp (right_tree B)"
proof (cases "has_key (left_tree B) l \<or> has_key (right_tree B) r")
  case True
  with insert_present [OF ok this] show ?thesis by simp
next
  case False
  with insert_absent(5,6) [OF ok, of l r] show ?thesis by simp
qed

lemma example_bimap_comp:
  "comp (left_tree example_bimap) = (<)" "comp (right_tree example_bimap) = (<)"
proof -
  have e: "comp (left_tree empty_bimap) = (<)" "comp (right_tree empty_bimap) = (<)"
    by (simp_all add: empty_bimap_def bimap_ctor_def link_sentinel_def tree_ctor_def Let_def)
  show "comp (left_tree example_bimap) = (<)" "comp (right_tree example_bimap) = (<)"
    unfolding example_bimap_def
    by (simp_all add: bimap_insert_comp bimap_ok_insert empty_bimap_ok e)
qed

lemma example_bimap_trees:
  "sentinel_left (left_tree example_bimap) =
     Node Null 1 1 (Node Null 2 2 (Node Null 3 3 Null))"
  "sentinel_left (right_tree example_bimap) =
     Node Null 1 ''a'' (Node Null 2 ''b'' (Node Null 3 ''c'' Null))"
  "bimap_n_node example_bimap = 3"
  "sentinel (left_tree example_bimap) = Sentinel left_tag"
  "sentinel (right_tree example_bimap) = Sentinel right_tag"
  by code_simp+

subsection \<open>The pairs of a container\<close>

lemma map_filter_all_Some:
  "\<forall>x\<in>set xs. f x \<noteq> None \<Longrightarrow> List.map_filter f xs = map (\<lambda>x. the (f x)) xs"
  by (induction xs) (auto simp: List.map_filter_simps)

lemma pair_at_defined:
  assumes ok: "bimap_ok B" and a: "a \<in> set (addrs (sentinel_left (left_tree B)))"
  shows "\<exists>l r. pair_at B a = Some (l, r)"
proof -
  from a obtain l where l: "(a, l) \<in> set (inorder (sentinel_left (left_tree B)))"
    by (auto simp: addrs_def)
  from right_partner [OF ok l] obtain r where
    "(a, r) \<in> set (inorder (sentinel_left (right_tree B)))" by blast
  with l pair_at_Some [OF ok, of a l r] show ?thesis by blast
qed

lemma pairs_eq_map:
  assumes ok: "bimap_ok B"
  shows "pairs B = map (\<lambda>a. the (pair_at B a)) (addrs (sentinel_left (left_tree B)))"
proof -
  have "\<forall>a\<in>set (addrs (sentinel_left (left_tree B))). pair_at B a \<noteq> None"
    using pair_at_defined [OF ok] by fastforce
  then show ?thesis unfolding pairs_def by (rule map_filter_all_Some)
qed


lemma length_pairs:
  "bimap_ok B \<Longrightarrow> length (pairs B) = length (addrs (sentinel_left (left_tree B)))"
  by (simp add: pairs_eq_map)

lemma map_of_ins_by:
  "a \<notin> fst ` set xs \<Longrightarrow>
     map_of (ins_by cmp (a, k) xs) b = (if b = a then Some k else map_of xs b)"
  by (induction xs) (auto simp: rev_image_eqI)


lemma pair_at_insert:
  assumes ok: "bimap_ok B" and nl: "\<not> has_key (left_tree B) l"
    and nr: "\<not> has_key (right_tree B) r"
  shows "pair_at (snd (bimap_insert B l r)) b =
           (if b = new_addr B then Some (l, r) else pair_at B b)"
proof -
  note fresh = new_addr_fresh [of B]
  note ia = insert_absent(2,3) [OF ok nl nr]
  from fresh have f: "new_addr B \<notin> fst ` set (inorder (sentinel_left (left_tree B)))"
    "new_addr B \<notin> fst ` set (inorder (sentinel_left (right_tree B)))"
    by (simp_all add: addrs_def)
  show ?thesis
    unfolding pair_at_def ia
    by (simp add: map_of_ins_by [OF f(1)] map_of_ins_by [OF f(2)] split: option.splits)
qed




subsection \<open>Access with a default\<close>





lemma erase_right_comp:
  assumes ok: "bimap_ok B"
  shows "comp (right_tree (snd (erase_right B d))) = comp (right_tree B)"
  using erase_right_eq [OF ok, of d] erase_it_trees [of B] unlink_fields [of "right_tree B"]
  by simp





subsection \<open>Copying and comparing\<close>

lemma copy_loop_run:
  assumes ok: "bimap_ok other"
  shows "set as \<subseteq> set (addrs (sentinel_left (left_tree other))) \<Longrightarrow>
     copy_loop other (map Rec as) this =
       Inr (foldl (\<lambda>B p. snd (bimap_insert B (fst p) (snd p))) this
              (map (\<lambda>a. the (pair_at other a)) as))"
proof (induction as arbitrary: this)
  case Nil
  show ?case by simp
next
  case (Cons a as)
  from ok have okl: "tree_ok (left_tree other)" and okr: "tree_ok (right_tree other)"
    by (simp_all add: bimap_ok_def)
  from Cons.prems have a: "a \<in> set (addrs (sentinel_left (left_tree other)))"
    and sub: "set as \<subseteq> set (addrs (sentinel_left (left_tree other)))" by simp_all
  from pair_at_defined [OF ok a] obtain l r where p: "pair_at other a = Some (l, r)" by blast
  with pair_at_Some [OF ok, of a l r]
  have ml: "(a, l) \<in> set (inorder (sentinel_left (left_tree other)))"
    and mr: "(a, r) \<in> set (inorder (sentinel_left (right_tree other)))" by simp_all
  have dl: "deref (left_tree other) (Rec a) = Inr l" using okl ml by (rule deref_Rec)
  have dr: "deref (right_tree other) (flip_left other (Rec a)) = Inr r"
    unfolding flip_left_def flip_Rec [OF okl] using okr mr by (rule deref_Rec)
  show ?case using dl dr p Cons.IH [OF sub] by simp
qed

lemma map_fst_pairs:
  assumes ok: "bimap_ok B"
  shows "map fst (pairs B) = map snd (inorder (sentinel_left (left_tree B)))"
proof -
  have "fst (the (pair_at B (fst e))) = snd e"
    if "e \<in> set (inorder (sentinel_left (left_tree B)))" for e
  proof -
    obtain a l where e: "e = (a, l)" by (cases e)
    with that have "a \<in> set (addrs (sentinel_left (left_tree B)))" by (auto dest: in_inorder_addrs)
    from pair_at_defined [OF ok this] obtain l' r where p: "pair_at B a = Some (l', r)" by blast
    with pair_at_Some [OF ok, of a l' r]
    have "(a, l') \<in> set (inorder (sentinel_left (left_tree B)))" by simp
    moreover from ok have "tree_ok (left_tree B)" by (simp add: bimap_ok_def)
    ultimately have "l' = l" using that e map_of_inorder [of "left_tree B" a]
      by (metis option.inject)
    with p e show ?thesis by simp
  qed
  then show ?thesis unfolding pairs_eq_map [OF ok] addrs_def by simp
qed

lemma pairs_sorted_left:
  assumes ok: "bimap_ok B"
  shows "sorted_wrt (\<lambda>p q. comp (left_tree B) (fst p) (fst q)) (pairs B)"
proof -
  from ok have "sorted_wrt (comp (left_tree B)) (map snd (inorder (sentinel_left (left_tree B))))"
    by (simp add: bimap_ok_def tree_ok_def bst_def sorted_wrt_map)
  then have "sorted_wrt (comp (left_tree B)) (map fst (pairs B))"
    by (simp add: map_fst_pairs [OF ok])
  then show ?thesis by (simp add: sorted_wrt_map)
qed

lemma distinct_sorted_wrt:
  "distinct xs \<Longrightarrow> (\<forall>x\<in>set xs. \<forall>y\<in>set xs. x \<noteq> y \<longrightarrow> Q x y) \<Longrightarrow> sorted_wrt Q xs"
  by (induction xs) auto

lemma pairs_right_distinct:
  assumes ok: "bimap_ok B"
  shows "sorted_wrt (\<lambda>p q. \<not> equivalent (comp (right_tree B)) (snd p) (snd q)) (pairs B)"
proof -
  let ?f = "\<lambda>a. the (pair_at B a)"
  let ?as = "addrs (sentinel_left (left_tree B))"
  from ok have okr: "tree_ok (right_tree B)" and dl: "distinct ?as"
    by (simp_all add: bimap_ok_def tree_ok_def)
  from okr have sw: "strict_weak (comp (right_tree B))"
    and so: "sorted_wrt (\<lambda>x y. comp (right_tree B) (snd x) (snd y))
               (inorder (sentinel_left (right_tree B)))"
    by (simp_all add: tree_ok_def bst_def)
  have "\<not> equivalent (comp (right_tree B)) (snd (?f a)) (snd (?f b))"
    if "a \<in> set ?as" "b \<in> set ?as" "a \<noteq> b" for a b
  proof -
    from pair_at_defined [OF ok that(1)] obtain la ra where pa: "pair_at B a = Some (la, ra)"
      by blast
    from pair_at_defined [OF ok that(2)] obtain lb rb where pb: "pair_at B b = Some (lb, rb)"
      by blast
    from pa pair_at_Some [OF ok, of a la ra]
    have ma: "(a, ra) \<in> set (inorder (sentinel_left (right_tree B)))" by simp
    from pb pair_at_Some [OF ok, of b lb rb]
    have mb: "(b, rb) \<in> set (inorder (sentinel_left (right_tree B)))" by simp
    from that(3) have "(a, ra) \<noteq> (b, rb)" by simp
    from sorted_wrt_comparable [OF so ma mb this]
    have "comp (right_tree B) ra rb \<or> comp (right_tree B) rb ra" by simp
    with pa pb show ?thesis by (auto simp: equivalent_def)
  qed
  with dl have "sorted_wrt (\<lambda>a b. \<not> equivalent (comp (right_tree B)) (snd (?f a)) (snd (?f b))) ?as"
    by (intro distinct_sorted_wrt) auto
  then show ?thesis unfolding pairs_eq_map [OF ok] by (simp add: sorted_wrt_map)
qed

lemma pairs_insert_last:
  assumes ok: "bimap_ok B" and nr: "\<not> has_key (right_tree B) r"
    and less: "\<forall>e\<in>set (inorder (sentinel_left (left_tree B))). comp (left_tree B) (snd e) l"
  shows "\<not> has_key (left_tree B) l"
    and "pairs (snd (bimap_insert B l r)) = pairs B @ [(l, r)]"
    and "inorder (sentinel_left (left_tree (snd (bimap_insert B l r)))) =
           inorder (sentinel_left (left_tree B)) @ [(new_addr B, l)]"
proof -
  show nl: "\<not> has_key (left_tree B) l" using less by (auto simp: has_key_def equivalent_def)
  note ia = insert_absent [OF ok nl nr]
  from less have "\<forall>y\<in>set (inorder (sentinel_left (left_tree B))).
                    comp (left_tree B) (snd y) (snd (new_addr B, l))" by simp
  from ins_by_last [where cmp = "comp (left_tree B)" and e = "(new_addr B, l)"
      and xs = "inorder (sentinel_left (left_tree B))"] this
  show io: "inorder (sentinel_left (left_tree (snd (bimap_insert B l r)))) =
           inorder (sentinel_left (left_tree B)) @ [(new_addr B, l)]"
    unfolding ia(2) by simp
  have old: "the (pair_at (snd (bimap_insert B l r)) b) = the (pair_at B b)"
    if "b \<in> set (addrs (sentinel_left (left_tree B)))" for b
    using that new_addr_fresh [of B] pair_at_insert [OF ok nl nr, of b] by auto
  show "pairs (snd (bimap_insert B l r)) = pairs B @ [(l, r)]"
    unfolding pairs_eq_map [OF ia(7)] pairs_eq_map [OF ok] addrs_def io
    using old pair_at_insert [OF ok nl nr, of "new_addr B"] by (simp add: addrs_def)
qed

lemma insert_run:
  "bimap_ok this \<Longrightarrow>
   sorted_wrt (\<lambda>p q. comp (left_tree this) (fst p) (fst q)) ps \<Longrightarrow>
   sorted_wrt (\<lambda>p q. \<not> equivalent (comp (right_tree this)) (snd p) (snd q)) ps \<Longrightarrow>
   (\<forall>p\<in>set ps. \<forall>e\<in>set (inorder (sentinel_left (left_tree this))).
      comp (left_tree this) (snd e) (fst p)) \<Longrightarrow>
   (\<forall>p\<in>set ps. \<not> has_key (right_tree this) (snd p)) \<Longrightarrow>
   bimap_ok (foldl (\<lambda>B p. snd (bimap_insert B (fst p) (snd p))) this ps) \<and>
   pairs (foldl (\<lambda>B p. snd (bimap_insert B (fst p) (snd p))) this ps) = pairs this @ ps"
proof (induction ps arbitrary: this)
  case Nil
  then show ?case by simp
next
  case (Cons p ps)
  obtain l r where p: "p = (l, r)" by (cases p)
  let ?this' = "snd (bimap_insert this l r)"
  from Cons.prems(5) p have nr: "\<not> has_key (right_tree this) r" by simp
  from Cons.prems(4) p
  have less: "\<forall>e\<in>set (inorder (sentinel_left (left_tree this))). comp (left_tree this) (snd e) l"
    by simp
  note pl = pairs_insert_last [OF Cons.prems(1) nr less]
  note ia = insert_absent [OF Cons.prems(1) pl(1) nr]
  from Cons.prems(1) have sw: "strict_weak (comp (left_tree this))"
    by (simp add: bimap_ok_def tree_ok_def)
  have 2: "sorted_wrt (\<lambda>p q. comp (left_tree ?this') (fst p) (fst q)) ps"
    using Cons.prems(2) by (simp add: ia(5))
  have 3: "sorted_wrt (\<lambda>p q. \<not> equivalent (comp (right_tree ?this')) (snd p) (snd q)) ps"
    using Cons.prems(3) by (simp add: ia(6))
  have 4: "\<forall>q\<in>set ps. \<forall>e\<in>set (inorder (sentinel_left (left_tree ?this'))).
      comp (left_tree ?this') (snd e) (fst q)"
    unfolding pl(3) ia(5) using Cons.prems(2,4) p by auto
  have 5: "\<forall>q\<in>set ps. \<not> has_key (right_tree ?this') (snd q)"
  proof
    fix q assume q: "q \<in> set ps"
    with Cons.prems(5) have "\<not> has_key (right_tree this) (snd q)" by simp
    moreover from Cons.prems(3) p q have "\<not> equivalent (comp (right_tree this)) r (snd q)" by auto
    ultimately show "\<not> has_key (right_tree ?this') (snd q)"
      unfolding has_key_def ia(3) ia(6) by (auto simp: set_ins_by)
  qed
  from Cons.IH [OF ia(7) 2 3 4 5] p pl(2) show ?case by simp
qed

lemma eq_loop_same:
  assumes oka: "bimap_ok a" and okb: "bimap_ok b"
  shows "set as \<subseteq> set (addrs (sentinel_left (left_tree a))) \<Longrightarrow>
     set bs \<subseteq> set (addrs (sentinel_left (left_tree b))) \<Longrightarrow>
     map (\<lambda>x. the (pair_at a x)) as = map (\<lambda>y. the (pair_at b y)) bs \<Longrightarrow>
     eq_loop a b (map Rec as) (map Rec bs) = Inr True"
proof (induction as arbitrary: bs)
  case Nil
  then show ?case by simp
next
  case (Cons x xs)
  from Cons.prems(3) obtain y ys where bs: "bs = y # ys" by (cases bs) auto
  from oka have okla: "tree_ok (left_tree a)" and okra: "tree_ok (right_tree a)"
    by (simp_all add: bimap_ok_def)
  from okb have oklb: "tree_ok (left_tree b)" and okrb: "tree_ok (right_tree b)"
    by (simp_all add: bimap_ok_def)
  from okla okra have swl: "strict_weak (comp (left_tree a))"
    and swr: "strict_weak (comp (right_tree a))" by (simp_all add: tree_ok_def)
  from Cons.prems(1) have x: "x \<in> set (addrs (sentinel_left (left_tree a)))"
    and subx: "set xs \<subseteq> set (addrs (sentinel_left (left_tree a)))" by simp_all
  from Cons.prems(2) bs have y: "y \<in> set (addrs (sentinel_left (left_tree b)))"
    and suby: "set ys \<subseteq> set (addrs (sentinel_left (left_tree b)))" by simp_all
  from pair_at_defined [OF oka x] obtain l r where pa: "pair_at a x = Some (l, r)" by blast
  from pair_at_defined [OF okb y] obtain l' r' where pb: "pair_at b y = Some (l', r')" by blast
  from Cons.prems(3) bs pa pb have same: "l' = l" "r' = r"
    and rest: "map (\<lambda>x. the (pair_at a x)) xs = map (\<lambda>y. the (pair_at b y)) ys" by simp_all
  from pa pair_at_Some [OF oka, of x l r]
  have "(x, l) \<in> set (inorder (sentinel_left (left_tree a)))"
    "(x, r) \<in> set (inorder (sentinel_left (right_tree a)))" by simp_all
  then have da: "deref (left_tree a) (Rec x) = Inr l"
    "deref (right_tree a) (flip_left a (Rec x)) = Inr r"
    unfolding flip_left_def flip_Rec [OF okla] using okla okra by (simp_all add: deref_Rec)
  from pb same pair_at_Some [OF okb, of y l r]
  have "(y, l) \<in> set (inorder (sentinel_left (left_tree b)))"
    "(y, r) \<in> set (inorder (sentinel_left (right_tree b)))" by simp_all
  then have db: "deref (left_tree b) (Rec y) = Inr l"
    "deref (right_tree b) (flip_left b (Rec y)) = Inr r"
    unfolding flip_left_def flip_Rec [OF oklb] using oklb okrb by (simp_all add: deref_Rec)
  have "eq_left a l l" "eq_right a r r"
    using swl swr by (simp_all add: eq_left_def eq_right_def is_equals_def equivalent_refl)
  with da db bs Cons.IH [OF subx suby rest] show ?case by simp
qed

lemma copy_ctor_run:
  assumes ok: "bimap_ok C"
  shows "bimap_copy_ctor C =
           Inr (foldl (\<lambda>B p. snd (bimap_insert B (fst p) (snd p)))
                  (bimap_ctor (comp (left_tree C)) (comp (right_tree C))) (pairs C))"
  unfolding bimap_copy_ctor_def positions_def pairs_eq_map [OF ok] bimap_ctor_def
  using copy_loop_run [OF ok, of "addrs (sentinel_left (left_tree C))"] by simp

subsection \<open>The cross-links of the sentinels\<close>

lemma linked_ctor: "sentinels_linked (bimap_ctor cl cr)"
  by (simp add: sentinels_linked_def bimap_ctor_def link_sentinel_def tree_ctor_def Let_def)

lemma insert_fields:
  assumes "sentinels_linked B"
  shows "sentinels_linked (snd (bimap_insert B l r))"
    and "comp (left_tree (snd (bimap_insert B l r))) = comp (left_tree B)"
    and "comp (right_tree (snd (bimap_insert B l r))) = comp (right_tree B)"
  using assms tree_insert_fields [of "left_tree B"] tree_insert_fields [of "right_tree B"]
  by (auto simp: sentinels_linked_def bimap_insert_def add_def split_beta Let_def)

lemma erase_left_fields:
  shows "sentinels_linked B \<Longrightarrow> sentinels_linked (snd (erase_left B l))"
    and "comp (left_tree (snd (erase_left B l))) = comp (left_tree B)"
    and "comp (right_tree (snd (erase_left B l))) = comp (right_tree B)"
  using erase_it_trees [of B] unlink_fields [of "left_tree B"] unlink_fields [of "right_tree B"]
  by (auto simp: sentinels_linked_def erase_left_def Let_def)

lemma erase_right_fields:
  shows "sentinels_linked B \<Longrightarrow> sentinels_linked (snd (erase_right B r))"
    and "comp (left_tree (snd (erase_right B r))) = comp (left_tree B)"
    and "comp (right_tree (snd (erase_right B r))) = comp (right_tree B)"
  using erase_it_trees [of B] unlink_fields [of "left_tree B"] unlink_fields [of "right_tree B"]
  by (auto simp: sentinels_linked_def erase_right_def Let_def)

lemma copy_loop_fields:
  "sentinels_linked this \<Longrightarrow> copy_loop other ps this = Inr D \<Longrightarrow>
     sentinels_linked D \<and> comp (left_tree D) = comp (left_tree this) \<and>
     comp (right_tree D) = comp (right_tree this)"
proof (induction ps arbitrary: this)
  case Nil
  then show ?case by simp
next
  case (Cons p ps)
  from Cons.prems(2) obtain l r where
    run: "copy_loop other ps (snd (bimap_insert this l r)) = Inr D"
    by (auto split: sum.splits)
  from Cons.IH [OF insert_fields(1) [OF Cons.prems(1)] run] insert_fields(2,3) [OF Cons.prems(1)]
  show ?case by simp
qed

lemma copy_ctor_fields:
  assumes "bimap_copy_ctor B = Inr D"
  shows "sentinels_linked D \<and> comp (left_tree D) = comp (left_tree B) \<and>
         comp (right_tree D) = comp (right_tree B)"
proof -
  let ?E = "bimap_ctor (comp (left_tree B)) (comp (right_tree B))"
  from assms have run: "copy_loop B (positions (left_tree B)) ?E = Inr D"
    by (simp add: bimap_copy_ctor_def bimap_ctor_def)
  have "comp (left_tree ?E) = comp (left_tree B)" "comp (right_tree ?E) = comp (right_tree B)"
    by (simp_all add: bimap_ctor_def link_sentinel_def tree_ctor_def Let_def)
  with copy_loop_fields [OF linked_ctor run] show ?thesis by simp
qed

lemma copy_ctor_ok:
  assumes ok: "bimap_ok C" and run: "bimap_copy_ctor C = Inr D"
  shows "bimap_ok D"
proof -
  let ?E = "bimap_ctor (comp (left_tree C)) (comp (right_tree C))"
  from ok have "strict_weak (comp (left_tree C))" "strict_weak (comp (right_tree C))"
    by (simp_all add: bimap_ok_def tree_ok_def)
  then have okE: "bimap_ok ?E" by (rule bimap_ok_ctor)
  have E: "comp (left_tree ?E) = comp (left_tree C)" "comp (right_tree ?E) = comp (right_tree C)"
    "inorder (sentinel_left (left_tree ?E)) = []" "inorder (sentinel_left (right_tree ?E)) = []"
    by (simp_all add: bimap_ctor_def link_sentinel_def tree_ctor_def Let_def)
  have 2: "sorted_wrt (\<lambda>p q. comp (left_tree ?E) (fst p) (fst q)) (pairs C)"
    unfolding E using ok by (rule pairs_sorted_left)
  have 3: "sorted_wrt (\<lambda>p q. \<not> equivalent (comp (right_tree ?E)) (snd p) (snd q)) (pairs C)"
    unfolding E using ok by (rule pairs_right_distinct)
  have 4: "\<forall>p\<in>set (pairs C). \<forall>e\<in>set (inorder (sentinel_left (left_tree ?E))).
      comp (left_tree ?E) (snd e) (fst p)" by (simp add: E)
  have 5: "\<forall>p\<in>set (pairs C). \<not> has_key (right_tree ?E) (snd p)"
    by (simp add: has_key_def E)
  from insert_run [OF okE 2 3 4 5] copy_ctor_run [OF ok] run show ?thesis by simp
qed

lemma swap_fields:
  assumes "sentinels_linked A" and "sentinels_linked B"
  shows "sentinels_linked (fst (bimap_swap A B))" and "sentinels_linked (snd (bimap_swap A B))"
  using assms
  by (simp_all add: sentinels_linked_def bimap_swap_def tree_swap_def link_sentinel_def Let_def)

lemma swap_ok:
  assumes "sentinels_linked A" and "bimap_ok B"
  shows "bimap_ok (fst (bimap_swap A B))" and "bimap_ok (snd (bimap_swap B A))"
  using assms
  by (simp_all add: sentinels_linked_def bimap_ok_def tree_ok_def bimap_swap_def tree_swap_def
      link_sentinel_def Let_def)

lemma swap_comp:
  "comp (left_tree (fst (bimap_swap A B))) = comp (left_tree B)"
  "comp (right_tree (fst (bimap_swap A B))) = comp (right_tree B)"
  "comp (left_tree (snd (bimap_swap A B))) = comp (left_tree A)"
  "comp (right_tree (snd (bimap_swap A B))) = comp (right_tree A)"
  by (simp_all add: bimap_swap_def tree_swap_def link_sentinel_def Let_def)

lemma move_ctor_unlinked:
  "flip_left (fst (bimap_move_ctor B)) (end_left (fst (bimap_move_ctor B))) = nullptr"
  "end_right (fst (bimap_move_ctor B)) = Sentinel right_tag"
  "flip_right (fst (bimap_move_ctor B)) (end_right (fst (bimap_move_ctor B))) = nullptr"
  "end_left (fst (bimap_move_ctor B)) = Sentinel left_tag"
  "\<not> sentinels_linked (fst (bimap_move_ctor B))"
  by (simp_all add: bimap_move_ctor_def tree_swap_def tree_ctor_def flip_left_def flip_right_def
      flip_def is_end_def end_left_def end_right_def tree_end_def sentinels_linked_def Let_def)

lemma flip_linked:
  assumes "sentinels_linked B"
  shows "(\<forall>p\<in>set (positions (left_tree B)).
            p \<noteq> end_left B \<and> flip_left B p = p \<and> flip_right B (flip_left B p) = p) \<and>
         flip_left B (end_left B) = end_right B \<and>
         flip_right B (end_right B) = end_left B"
  using assms
  by (auto simp: sentinels_linked_def positions_def flip_left_def flip_right_def flip_def
      is_end_def end_left_def end_right_def tree_end_def)

subsection \<open>Sizes and traversals of a well-formed container\<close>

lemma ok_size:
  assumes ok: "bimap_ok B"
  shows "bimap_size B = of_nat (length (pairs B))"
  using ok by (simp add: bimap_size_def length_pairs bimap_ok_def)

lemma at_left_or_default_state:
  "snd (at_left_or_default B k d) =
     (if find_left B k = end_left B then snd (bimap_insert (snd (erase_right B d)) k d) else B)"
  by (simp add: at_left_or_default_def erase_right_def Let_def split_beta)

lemma at_right_or_default_state:
  "snd (at_right_or_default B k d) =
     (if find_right B k = end_right B then snd (bimap_insert (snd (erase_left B d)) d k) else B)"
  by (simp add: at_right_or_default_def erase_left_def Let_def split_beta)

lemma ok_traversals:
  assumes ok: "bimap_ok B"
  shows "bimap_size B = of_nat (length (positions (left_tree B)))"
    and "length (positions (right_tree B)) = length (positions (left_tree B))"
proof -
  from ok show "bimap_size B = of_nat (length (positions (left_tree B)))"
    by (simp add: bimap_size_def bimap_ok_def positions_def)
  from ok have "distinct (addrs (sentinel_left (left_tree B)))"
    "distinct (addrs (sentinel_left (right_tree B)))"
    "set (addrs (sentinel_left (left_tree B))) = set (addrs (sentinel_left (right_tree B)))"
    by (simp_all add: bimap_ok_def tree_ok_def)
  then have "length (addrs (sentinel_left (right_tree B))) =
             length (addrs (sentinel_left (left_tree B)))"
    by (metis distinct_card)
  then show "length (positions (right_tree B)) = length (positions (left_tree B))"
    by (simp add: positions_def)
qed

subsection \<open>The copy of a well-formed container\<close>

lemma copy_ctor_same:
  assumes "bimap_ok C"
  shows "\<exists>D. bimap_copy_ctor C = Inr D \<and>
              D = foldl (\<lambda>B p. snd (bimap_insert B (fst p) (snd p)))
                    (bimap_ctor (comp (left_tree C)) (comp (right_tree C))) (pairs C) \<and>
              bimap_eq D C = Inr True \<and> bimap_eq C D = Inr True \<and>
              bimap_size D = bimap_size C \<and> pairs D = pairs C \<and> bimap_ok D"
proof -
  let ?E = "bimap_ctor (comp (left_tree C)) (comp (right_tree C))"
  let ?D = "foldl (\<lambda>B p. snd (bimap_insert B (fst p) (snd p))) ?E (pairs C)"
  from assms have swl: "strict_weak (comp (left_tree C))"
    and swr: "strict_weak (comp (right_tree C))"
    by (simp_all add: bimap_ok_def tree_ok_def)
  then have okE: "bimap_ok ?E" by (rule bimap_ok_ctor)
  have E: "comp (left_tree ?E) = comp (left_tree C)" "comp (right_tree ?E) = comp (right_tree C)"
    "inorder (sentinel_left (left_tree ?E)) = []" "inorder (sentinel_left (right_tree ?E)) = []"
    by (simp_all add: bimap_ctor_def link_sentinel_def tree_ctor_def Let_def)
  have pE: "pairs ?E = []" by (simp add: pairs_def addrs_def E List.map_filter_simps)
  have 2: "sorted_wrt (\<lambda>p q. comp (left_tree ?E) (fst p) (fst q)) (pairs C)"
    unfolding E using assms by (rule pairs_sorted_left)
  have 3: "sorted_wrt (\<lambda>p q. \<not> equivalent (comp (right_tree ?E)) (snd p) (snd q)) (pairs C)"
    unfolding E using assms by (rule pairs_right_distinct)
  have 4: "\<forall>p\<in>set (pairs C). \<forall>e\<in>set (inorder (sentinel_left (left_tree ?E))).
      comp (left_tree ?E) (snd e) (fst p)" by (simp add: E)
  have 5: "\<forall>p\<in>set (pairs C). \<not> has_key (right_tree ?E) (snd p)"
    by (simp add: has_key_def E)
  from insert_run [OF okE 2 3 4 5] pE
  have okD: "bimap_ok ?D" and pD: "pairs ?D = pairs C" by simp_all
  have run: "bimap_copy_ctor C = Inr ?D" using assms by (rule copy_ctor_run)
  from okD assms have sz: "bimap_size ?D = bimap_size C"
    unfolding bimap_size_def bimap_ok_def
    using length_pairs [OF okD] length_pairs [OF assms] pD by simp
  have m: "map (\<lambda>x. the (pair_at C x)) (addrs (sentinel_left (left_tree C))) =
           map (\<lambda>y. the (pair_at ?D y)) (addrs (sentinel_left (left_tree ?D)))"
    unfolding pairs_eq_map [OF assms, symmetric] pairs_eq_map [OF okD, symmetric] pD ..
  have "eq_loop C ?D (map Rec (addrs (sentinel_left (left_tree C))))
          (map Rec (addrs (sentinel_left (left_tree ?D)))) = Inr True"
    by (rule eq_loop_same [OF assms okD subset_refl subset_refl m])
  with sz have eq: "bimap_eq C ?D = Inr True" by (simp add: bimap_eq_def positions_def)
  have "eq_loop ?D C (map Rec (addrs (sentinel_left (left_tree ?D))))
          (map Rec (addrs (sentinel_left (left_tree C)))) = Inr True"
    by (rule eq_loop_same [OF okD assms subset_refl subset_refl m [symmetric]])
  with sz have eq': "bimap_eq ?D C = Inr True" by (simp add: bimap_eq_def positions_def)
  from run eq eq' sz pD okD show ?thesis by blast
qed

section \<open>The claims\<close>

text \<open>
  C1: for every well-formed container and values \<open>l\<close>, \<open>r\<close>: if \<open>l\<close> is present in
  the left index or \<open>r\<close> in the right index, \<open>insert\<close> returns \<open>end_left()\<close> and
  the container is unchanged; otherwise it adds exactly one record, at a fresh address, to
  both indexes, increments the pair counter by one and returns the left-side position of
  the new record.
\<close>

theorem insert_claim:
  assumes "bimap_ok B"
  shows "(has_key (left_tree B) l \<or> has_key (right_tree B) r \<longrightarrow>
            bimap_insert B l r = (end_left B, B)) \<and>
         (\<not> has_key (left_tree B) l \<and> \<not> has_key (right_tree B) r \<longrightarrow>
            (\<exists>a. a \<notin> set (addrs (sentinel_left (left_tree B))) \<and>
                 a \<notin> set (addrs (sentinel_left (right_tree B))) \<and>
                 fst (bimap_insert B l r) = Rec a \<and>
                 inorder (sentinel_left (left_tree (snd (bimap_insert B l r)))) =
                   ins_by (comp (left_tree B)) (a, l) (inorder (sentinel_left (left_tree B))) \<and>
                 inorder (sentinel_left (right_tree (snd (bimap_insert B l r)))) =
                   ins_by (comp (right_tree B)) (a, r) (inorder (sentinel_left (right_tree B))) \<and>
                 set (inorder (sentinel_left (left_tree (snd (bimap_insert B l r))))) =
                   insert (a, l) (set (inorder (sentinel_left (left_tree B)))) \<and>
                 set (inorder (sentinel_left (right_tree (snd (bimap_insert B l r))))) =
                   insert (a, r) (set (inorder (sentinel_left (right_tree B)))) \<and>
                 bimap_size (snd (bimap_insert B l r)) = bimap_size B + 1 \<and>
                 bimap_ok (snd (bimap_insert B l r))))"
proof (intro conjI impI)
  assume "has_key (left_tree B) l \<or> has_key (right_tree B) r"
  with assms show "bimap_insert B l r = (end_left B, B)" by (rule insert_present)
next
  assume "\<not> has_key (left_tree B) l \<and> \<not> has_key (right_tree B) r"
  then have nl: "\<not> has_key (left_tree B) l" and nr: "\<not> has_key (right_tree B) r" by simp_all
  note ia = insert_absent [OF assms nl nr]
  show "\<exists>a. a \<notin> set (addrs (sentinel_left (left_tree B))) \<and>
                 a \<notin> set (addrs (sentinel_left (right_tree B))) \<and>
                 fst (bimap_insert B l r) = Rec a \<and>
                 inorder (sentinel_left (left_tree (snd (bimap_insert B l r)))) =
                   ins_by (comp (left_tree B)) (a, l) (inorder (sentinel_left (left_tree B))) \<and>
                 inorder (sentinel_left (right_tree (snd (bimap_insert B l r)))) =
                   ins_by (comp (right_tree B)) (a, r) (inorder (sentinel_left (right_tree B))) \<and>
                 set (inorder (sentinel_left (left_tree (snd (bimap_insert B l r))))) =
                   insert (a, l) (set (inorder (sentinel_left (left_tree B)))) \<and>
                 set (inorder (sentinel_left (right_tree (snd (bimap_insert B l r))))) =
                   insert (a, r) (set (inorder (sentinel_left (right_tree B)))) \<and>
                 bimap_size (snd (bimap_insert B l r)) = bimap_size B + 1 \<and>
                 bimap_ok (snd (bimap_insert B l r))"
    using new_addr_fresh [of B] ia
    by (intro exI [of _ "new_addr B"]) (simp add: set_ins_by bimap_size_def)
qed

theorem insert_claim_witness:
  "bimap_ok example_bimap \<and>
   bimap_insert example_bimap 2 ''z'' = (end_left example_bimap, example_bimap) \<and>
   bimap_insert example_bimap 9 ''c'' = (end_left example_bimap, example_bimap) \<and>
   fst (bimap_insert example_bimap 0 ''d'') = Rec 4 \<and>
   inorder (sentinel_left (left_tree (snd (bimap_insert example_bimap 0 ''d'')))) =
     [(4, 0), (1, 1), (2, 2), (3, 3)] \<and>
   inorder (sentinel_left (right_tree (snd (bimap_insert example_bimap 0 ''d'')))) =
     [(1, ''a''), (2, ''b''), (3, ''c''), (4, ''d'')] \<and>
   bimap_size (snd (bimap_insert example_bimap 0 ''d'')) = 4"
proof -
  have p1: "has_key (left_tree example_bimap) 2"
    by (simp add: has_key_def example_bimap_trees example_bimap_comp equivalent_def)
  have p2: "has_key (right_tree example_bimap) ''c''"
    by (simp add: has_key_def example_bimap_trees example_bimap_comp equivalent_def)
  have a1: "\<not> has_key (left_tree example_bimap) 0"
    by (simp add: has_key_def example_bimap_trees example_bimap_comp equivalent_def)
  have a2: "\<not> has_key (right_tree example_bimap) ''d''"
    by (simp add: has_key_def example_bimap_trees example_bimap_comp equivalent_def)
  note c = insert_claim [OF example_bimap_ok]
  from c [of 2 "''z''"] p1
  have 1: "bimap_insert example_bimap 2 ''z'' = (end_left example_bimap, example_bimap)" by simp
  from c [of 9 "''c''"] p2
  have 2: "bimap_insert example_bimap 9 ''c'' = (end_left example_bimap, example_bimap)" by simp
  from c [of 0 "''d''"] a1 a2 obtain a where
    a: "fst (bimap_insert example_bimap 0 ''d'') = Rec a"
    and sz: "bimap_size (snd (bimap_insert example_bimap 0 ''d'')) = bimap_size example_bimap + 1"
    by blast
  have 3: "fst (bimap_insert example_bimap 0 ''d'') = Rec 4" by code_simp
  have 4: "inorder (sentinel_left (left_tree (snd (bimap_insert example_bimap 0 ''d'')))) =
     [(4, 0), (1, 1), (2, 2), (3, 3)]" by code_simp
  have 5: "inorder (sentinel_left (right_tree (snd (bimap_insert example_bimap 0 ''d'')))) =
     [(1, ''a''), (2, ''b''), (3, ''c''), (4, ''d'')]" by code_simp
  from sz have 6: "bimap_size (snd (bimap_insert example_bimap 0 ''d'')) = 4"
    by (simp add: bimap_size_def example_bimap_trees)
  from example_bimap_ok 1 2 3 4 5 6 show ?thesis by simp
qed

text \<open>
  C2: on a freshly constructed \<open>bimap<int, string>\<close>, after \<open>insert(1, "a")\<close>,
  \<open>insert(2, "b")\<close>, \<open>insert(3, "c")\<close>: \<open>at_left(2)\<close> returns \<open>"b"\<close>; then
  \<open>erase_left(2)\<close> returns true and removes the pair; after that \<open>find_right("b")\<close>
  returns \<open>end_right()\<close> and \<open>size()\<close> returns 2.
\<close>

theorem scenario_claim:
  "at_left example_bimap 2 = Inr ''b'' \<and>
   fst (erase_left example_bimap 2) = True \<and>
   pairs (snd (erase_left example_bimap 2)) = [(1, ''a''), (3, ''c'')] \<and>
   find_right (snd (erase_left example_bimap 2)) ''b'' =
     end_right (snd (erase_left example_bimap 2)) \<and>
   bimap_size (snd (erase_left example_bimap 2)) = 2"
  by code_simp

text \<open>
  C3: the size of the container, the number of live pair records and the sizes of the two
  indexes after \<open>insert(1, "a")\<close> and \<open>erase_left(1)\<close> on an empty container. The
  container counts 0 pairs and no record is linked, but each tree still counts 1 node:
  \<open>erase_left\<close> decrements the counter of the container only, and \<open>empty()\<close> then
  fails the assertion of the tree's \<open>empty()\<close>.
\<close>

theorem size_divergence:
  "bimap_size (snd (erase_left (snd (bimap_insert empty_bimap 1 ''a'')) 1)) = 0 \<and>
   pairs (snd (erase_left (snd (bimap_insert empty_bimap 1 ''a'')) 1)) = [] \<and>
   positions (left_tree (snd (erase_left (snd (bimap_insert empty_bimap 1 ''a'')) 1))) = [] \<and>
   positions (right_tree (snd (erase_left (snd (bimap_insert empty_bimap 1 ''a'')) 1))) = [] \<and>
   tree_size (left_tree (snd (erase_left (snd (bimap_insert empty_bimap 1 ''a'')) 1))) = 1 \<and>
   tree_size (right_tree (snd (erase_left (snd (bimap_insert empty_bimap 1 ''a'')) 1))) = 1 \<and>
   bimap_empty (snd (erase_left (snd (bimap_insert empty_bimap 1 ''a'')) 1)) =
     Inl assertion_failed"
  by code_simp

text \<open>
  C4: flipping the end positions of a container that the move constructor built from the
  example container. The positions of the records flip to the same record and back, but
  \<open>end_left().flip()\<close> is the null pointer and not \<open>end_right()\<close>, and
  \<open>end_right().flip()\<close> is the null pointer and not \<open>end_left()\<close>: the move
  constructor never calls \<open>link_sentinel\<close>, so the \<open>right\<close> slots of the new
  sentinels are never set. On the source before the move, and on a container that \<open>swap\<close>
  filled, the end positions flip to each other.
\<close>

theorem flip_divergence:
  "flip_left (fst (bimap_move_ctor example_bimap))
     (end_left (fst (bimap_move_ctor example_bimap))) = nullptr \<and>
   end_right (fst (bimap_move_ctor example_bimap)) = Sentinel right_tag \<and>
   flip_right (fst (bimap_move_ctor example_bimap))
     (end_right (fst (bimap_move_ctor example_bimap))) = nullptr \<and>
   end_left (fst (bimap_move_ctor example_bimap)) = Sentinel left_tag \<and>
   positions (left_tree (fst (bimap_move_ctor example_bimap))) = [Rec 1, Rec 2, Rec 3] \<and>
   flip_right (fst (bimap_move_ctor example_bimap))
     (flip_left (fst (bimap_move_ctor example_bimap)) (Rec 2)) = Rec 2 \<and>
   flip_left example_bimap (end_left example_bimap) = end_right example_bimap \<and>
   flip_right example_bimap (end_right example_bimap) = end_left example_bimap \<and>
   flip_left (fst (bimap_swap empty_bimap example_bimap))
     (end_left (fst (bimap_swap empty_bimap example_bimap))) =
     end_right (fst (bimap_swap empty_bimap example_bimap))"
  by code_simp



text \<open>
  C6: for every well-formed container, \<open>at_left\<close> (symmetrically \<open>at_right\<close>) raises the
  out-of-range error exactly when no record has a key equivalent to \<open>k\<close>, and otherwise
  returns the opposite-side value of the record found. Both are \<open>const\<close> members: they
  return a value and no new container.
\<close>

theorem at_claim:
  assumes "bimap_ok B"
  shows "(at_left B k = Inl out_of_range \<longleftrightarrow> \<not> has_key (left_tree B) k) \<and>
         (has_key (left_tree B) k \<longrightarrow>
            (\<exists>a l r. pair_at B a = Some (l, r) \<and> equivalent (comp (left_tree B)) l k \<and>
               at_left B k = Inr r)) \<and>
         (at_right B k' = Inl out_of_range \<longleftrightarrow> \<not> has_key (right_tree B) k') \<and>
         (has_key (right_tree B) k' \<longrightarrow>
            (\<exists>a l r. pair_at B a = Some (l, r) \<and> equivalent (comp (right_tree B)) r k' \<and>
               at_right B k' = Inr l))"
proof (intro conjI impI)
  show "at_left B k = Inl out_of_range \<longleftrightarrow> \<not> has_key (left_tree B) k"
    using at_left_absent [OF assms, of k] at_left_present [OF assms, of k] by auto
  show "at_right B k' = Inl out_of_range \<longleftrightarrow> \<not> has_key (right_tree B) k'"
    using at_right_absent [OF assms, of k'] at_right_present [OF assms, of k'] by auto
next
  assume "has_key (left_tree B) k"
  from at_left_present [OF assms this]
  show "\<exists>a l r. pair_at B a = Some (l, r) \<and> equivalent (comp (left_tree B)) l k \<and>
               at_left B k = Inr r" by blast
next
  assume "has_key (right_tree B) k'"
  from at_right_present [OF assms this]
  show "\<exists>a l r. pair_at B a = Some (l, r) \<and> equivalent (comp (right_tree B)) r k' \<and>
               at_right B k' = Inr l" by blast
qed

theorem at_claim_witness:
  "bimap_ok example_bimap \<and>
   at_left example_bimap 2 = Inr ''b'' \<and> at_left example_bimap 7 = Inl out_of_range \<and>
   at_right example_bimap ''c'' = Inr 3 \<and> at_right example_bimap ''x'' = Inl out_of_range"
proof -
  have a1: "\<not> has_key (left_tree example_bimap) 7"
    by (simp add: has_key_def example_bimap_trees example_bimap_comp equivalent_def)
  have a2: "\<not> has_key (right_tree example_bimap) ''x''"
    by (simp add: has_key_def example_bimap_trees example_bimap_comp equivalent_def)
  from at_claim [OF example_bimap_ok, of 7 "''x''"] a1 a2
  have 1: "at_left example_bimap 7 = Inl out_of_range"
    and 2: "at_right example_bimap ''x'' = Inl out_of_range" by simp_all
  have 3: "at_left example_bimap 2 = Inr ''b''" by code_simp
  have 4: "at_right example_bimap ''c'' = Inr 3" by code_simp
  from example_bimap_ok 1 2 3 4 show ?thesis by simp
qed

text \<open>
  C7: move construction from the example container. The new container has the three
  pairs; the source has no record left, but its \<open>size()\<close> is still 3 and its
  \<open>empty()\<close> fails its assertion: the move constructor copies \<open>n_node\<close> and leaves
  the source's counter as it was. \<open>swap\<close> exchanges the counters.
\<close>

theorem move_divergence:
  "pairs (fst (bimap_move_ctor example_bimap)) = [(1, ''a''), (2, ''b''), (3, ''c'')] \<and>
   bimap_size (fst (bimap_move_ctor example_bimap)) = 3 \<and>
   pairs (snd (bimap_move_ctor example_bimap)) = [] \<and>
   bimap_size (snd (bimap_move_ctor example_bimap)) = 3 \<and>
   bimap_empty (snd (bimap_move_ctor example_bimap)) = Inl assertion_failed \<and>
   bimap_size (snd (bimap_swap empty_bimap example_bimap)) = 0 \<and>
   bimap_empty (snd (bimap_swap empty_bimap example_bimap)) = Inr True"
  by code_simp

text \<open>
  C8: for every well-formed index and every key \<open>x\<close>, \<open>find_next\<close> returns the
  lower bound of \<open>x\<close>: the position of the least element that is not less than \<open>x\<close>
  under the comparator, and end when no element is greater than or equal to \<open>x\<close>, in
  particular on an empty index.
\<close>

theorem find_next_lower_bound_claim:
  assumes "tree_ok t"
  shows "is_lower_bound t x (find_next t x) \<and>
         (sentinel_left t = Null \<longrightarrow> find_next t x = tree_end t)"
proof
  show "is_lower_bound t x (find_next t x)" using assms by (rule find_next_lower_bound)
  show "sentinel_left t = Null \<longrightarrow> find_next t x = tree_end t"
    by (simp add: find_next_def find_res_def tree_end_def)
qed

theorem find_next_lower_bound_witness:
  "tree_ok example_tree \<and> is_lower_bound example_tree 15 (find_next example_tree 15) \<and>
   find_next example_tree 15 = Rec 1 \<and> find_next example_tree 25 = Rec 3 \<and>
   find_next example_tree 31 = tree_end example_tree"
proof -
  have 1: "find_next example_tree 15 = Rec 1"
    by (simp add: example_tree_eq find_next_def find_res_def tree_next_def)
  have 2: "find_next example_tree 25 = Rec 3"
    by (simp add: example_tree_eq find_next_def find_res_def tree_next_def)
  have 3: "find_next example_tree 31 = tree_end example_tree"
    by (simp add: example_tree_eq find_next_def find_res_def tree_next_def tree_end_def)
  from find_next_lower_bound_claim [OF example_tree_ok, of 15] 1 2 3 example_tree_ok
  show ?thesis by simp
qed

text \<open>
  C9: copying the container that a move construction from the example container leaves
  behind. The source of the move links no record but still counts 3 pairs; its copy is
  empty and counts 0, so \<open>operator==\<close> stops at the sizes and finds the copy and its
  source unequal, whichever is the left operand. The copy of the example container itself
  has the same pairs and the same size, and compares equal in both orders.
\<close>

theorem copy_divergence:
  "pairs (snd (bimap_move_ctor example_bimap)) = [] \<and>
   bimap_size (snd (bimap_move_ctor example_bimap)) = 3 \<and>
   (case bimap_copy_ctor (snd (bimap_move_ctor example_bimap)) of
      Inl e \<Rightarrow> False
    | Inr D \<Rightarrow>
        pairs D = [] \<and> bimap_size D = 0 \<and>
        bimap_eq D (snd (bimap_move_ctor example_bimap)) = Inr False \<and>
        bimap_eq (snd (bimap_move_ctor example_bimap)) D = Inr False) \<and>
   (case bimap_copy_ctor example_bimap of
      Inl e \<Rightarrow> False
    | Inr D \<Rightarrow>
        pairs D = [(1, ''a''), (2, ''b''), (3, ''c'')] \<and> bimap_size D = 3 \<and>
        bimap_eq D example_bimap = Inr True \<and> bimap_eq example_bimap D = Inr True)"
  by code_simp

text \<open>
  C10: for every non-empty well-formed index and every value \<open>v\<close> that some node
  compares equivalent to, removal by value returns end and leaves the index as it was: no
  node is unlinked and the size is unchanged.
\<close>

theorem tree_remove_present_claim:
  assumes "tree_ok t" and "sentinel_left t \<noteq> Null" and "has_key t v"
  shows "fst (tree_remove t v) = tree_end t \<and> snd (tree_remove t v) = t \<and>
         tree_size (snd (tree_remove t v)) = tree_size t \<and>
         inorder (sentinel_left (snd (tree_remove t v))) = inorder (sentinel_left t)"
  using tree_remove_present [OF assms(1,3)] by simp

theorem tree_remove_present_witness:
  "tree_ok example_tree \<and> sentinel_left example_tree \<noteq> Null \<and> has_key example_tree 10 \<and>
   fst (tree_remove example_tree 10) = tree_end example_tree \<and>
   snd (tree_remove example_tree 10) = example_tree \<and>
   tree_size (snd (tree_remove example_tree 10)) = 3"
proof -
  have nn: "sentinel_left example_tree \<noteq> Null" by (simp add: example_tree_eq)
  have hk: "has_key example_tree 10" by (simp add: example_tree_eq has_key_def equivalent_def)
  have sz: "tree_size example_tree = 3" by (simp add: example_tree_eq tree_size_def)
  from tree_remove_present_claim [OF example_tree_ok nn hk] example_tree_ok nn hk sz
  show ?thesis by simp
qed

end
